theory Spec2Isabelle
  imports Main "HOL-Library.Word"
begin

section \<open>Data model of the heat monitor (application.cpp)\<close>

text \<open>
  The firmware runs on a 32-bit controller: \<open>int\<close> and \<open>size_t\<close> are 32-bit words.
  Signed values are read with \<open>sint\<close> and compared with \<open><s\<close>, unsigned sizes with
  \<open>unat\<close> and \<open><\<close>; addition and subtraction wrap around as the machine does.
\<close>

type_synonym int32 = "32 word"
type_synonym size_t = "32 word"

definition HYST_MAX :: int32 where "HYST_MAX = 500"
definition HYST_MIN :: int32 where "HYST_MIN = 0"
definition HYST_THRESH_ON :: int32 where "HYST_THRESH_ON = 400"
definition HYST_THRESH_OFF :: int32 where "HYST_THRESH_OFF = 100"

text \<open>The enum \<open>Demand\<close>; its members \<open>True\<close> and \<open>False\<close> carry a suffix here.\<close>

datatype Demand = Unknown | True_D | False_D

record ZoneInfo =
  id_z :: int32
  pin :: "16 word"
  count :: int32
  demand :: Demand

record ZoneEvent =
  info :: ZoneInfo
  time :: int32
  demand_e :: Demand

definition MAX_NUM_EVENTS :: nat where "MAX_NUM_EVENTS = 20"

section \<open>Hysteresis debounce (the body of the zone loop of read_all_zones)\<close>

text \<open>
  Lines 200 to 213.  \<open>high\<close> is the outcome of \<open>digitalRead(zone.pin) == HIGH\<close>
  (HIGH means the zone is off).  The first statement pair of each branch changes the
  counter and applies the boundary check; the last statement compares the counter
  with the threshold.
\<close>

definition boundary_check :: "bool \<Rightarrow> ZoneInfo \<Rightarrow> ZoneInfo" where
  "boundary_check high zone =
     (if high then
        (let z = zone\<lparr>count := count zone - 1\<rparr>
         in if count z <s HYST_MIN then z\<lparr>count := HYST_MIN\<rparr> else z)
      else
        (let z = zone\<lparr>count := count zone + 5\<rparr>
         in if HYST_MAX <s count z then z\<lparr>count := HYST_MAX\<rparr> else z))"

definition status_update :: "bool \<Rightarrow> ZoneInfo \<Rightarrow> ZoneInfo" where
  "status_update high zone =
     (if high then
        (if count zone <s HYST_THRESH_OFF then zone\<lparr>demand := False_D\<rparr> else zone)
      else
        (if HYST_THRESH_ON <s count zone then zone\<lparr>demand := True_D\<rparr> else zone))"

definition debounce :: "bool \<Rightarrow> ZoneInfo \<Rightarrow> ZoneInfo" where
  "debounce high zone = status_update high (boundary_check high zone)"

text \<open>A zone observed over a sequence of raw readings, oldest reading first.\<close>

definition observe_all :: "bool list \<Rightarrow> ZoneInfo \<Rightarrow> ZoneInfo" where
  "observe_all rs zone = foldl (\<lambda>z high. debounce high z) zone rs"

text \<open>The entries of \<open>zone_list\<close>; the pin numbers come from the platform header.\<close>

definition zone_list_init :: "16 word \<Rightarrow> 16 word \<Rightarrow> 16 word \<Rightarrow> ZoneInfo list" where
  "zone_list_init D4 D5 D6 =
     [\<lparr>id_z = 0, pin = D4, count = HYST_MAX div 2, demand = Unknown\<rparr>,
      \<lparr>id_z = 1, pin = D5, count = HYST_MAX div 2, demand = Unknown\<rparr>,
      \<lparr>id_z = 2, pin = D6, count = HYST_MAX div 2, demand = Unknown\<rparr>]"

definition in_hyst_range :: "ZoneInfo \<Rightarrow> bool" where
  "in_hyst_range zone \<longleftrightarrow> HYST_MIN \<le>s count zone \<and> count zone \<le>s HYST_MAX"

section \<open>The event log (lines 222 to 224 of read_all_zones)\<close>

text \<open>
  \<open>zone_events\<close> is a \<open>std::list\<close> with the newest event at the front: when it holds
  \<open>MAX_NUM_EVENTS\<close> entries \<open>pop_back\<close> drops the oldest, then \<open>emplace_front\<close> adds.
\<close>

definition push_event :: "ZoneEvent \<Rightarrow> ZoneEvent list \<Rightarrow> ZoneEvent list" where
  "push_event event zone_events =
     event # (if length zone_events = MAX_NUM_EVENTS then butlast zone_events else zone_events)"

definition push_all :: "ZoneEvent list \<Rightarrow> ZoneEvent list \<Rightarrow> ZoneEvent list" where
  "push_all events zone_events = foldl (\<lambda>l e. push_event e l) zone_events events"

section \<open>Character buffers\<close>

text \<open>
  A \<open>char\<close> array is a list of its bytes and a pointer into it is an offset.  A store
  outside the array is undefined behaviour in C++: here it is the result \<open>None\<close>, so a
  function that returns \<open>Some\<close> has stayed inside the array.
\<close>

type_synonym buffer = "char list"

definition NUL :: char where "NUL = CHR 0x00"

definition store :: "buffer \<Rightarrow> nat \<Rightarrow> char \<Rightarrow> buffer option" where
  "store b i c = (if i < length b then Some (b[i := c]) else None)"

fun store_bytes :: "buffer \<Rightarrow> nat \<Rightarrow> string \<Rightarrow> buffer option" where
  "store_bytes b i [] = Some b"
| "store_bytes b i (c # cs) =
     (case store b i c of None \<Rightarrow> None | Some b' \<Rightarrow> store_bytes b' (Suc i) cs)"

text \<open>The C string held by a buffer; reading on past the array is \<open>None\<close>.\<close>

definition cstr :: "buffer \<Rightarrow> string option" where
  "cstr b = (if NUL \<in> set b then Some (takeWhile (\<lambda>c. c \<noteq> NUL) b) else None)"

subsection \<open>The C library: snprintf with the format of ZONE\_JSON\_STRING\<close>

text \<open>
  The conversion \<open>%d\<close> prints a signed decimal number with no leading zero.
\<close>

fun dec_nat :: "nat \<Rightarrow> string" where
  "dec_nat n = (if n < 10 then [''0123456789'' ! n]
                else dec_nat (n div 10) @ [''0123456789'' ! (n mod 10)])"

declare dec_nat.simps [simp del]

definition dec_int :: "int \<Rightarrow> string" where
  "dec_int i = (if i < 0 then CHR ''-'' # dec_nat (nat (- i)) else dec_nat (nat i))"

definition ZONE_JSON_STRING :: "int32 \<Rightarrow> int32 \<Rightarrow> int32 \<Rightarrow> string" where
  \<open>ZONE_JSON_STRING a b c =
     ''{"id":'' @ dec_int (sint a) @ '',"t":'' @ dec_int (sint b) @ '',"on":'' @ dec_int (sint c) @ ''}''\<close>

text \<open>
  \<open>snprintf(buffer, n, ...)\<close> where the formatted text is \<open>s\<close>: nothing is stored when
  \<open>n = 0\<close>; otherwise the first \<open>n - 1\<close> characters of \<open>s\<close> and a terminating NUL.  The
  result is the length of \<open>s\<close>, whether or not it was cut.
\<close>

definition snprintf :: "buffer \<Rightarrow> nat \<Rightarrow> size_t \<Rightarrow> string \<Rightarrow> (buffer \<times> int32) option" where
  "snprintf b off n s =
     (if n = 0 then Some (b, of_nat (length s))
      else case store_bytes b off (take (unat n - 1) s @ [NUL]) of
             None \<Rightarrow> None
           | Some b' \<Rightarrow> Some (b', of_nat (length s)))"

section \<open>write\_event\_json (lines 122 to 140)\<close>

text \<open>
  The argument \<open>buffer\<close> of the source is the pair of the array \<open>b\<close> and the offset
  \<open>off\<close>.  The result is the array after the call and the returned \<open>int\<close>.
\<close>

definition event_json :: "ZoneEvent \<Rightarrow> string" where
  "event_json event =
     ZONE_JSON_STRING (id_z (info event)) (time event)
       (if demand_e event = True_D then 1 else 0)"

definition write_event_json ::
  "ZoneEvent \<Rightarrow> buffer \<Rightarrow> nat \<Rightarrow> size_t \<Rightarrow> bool \<Rightarrow> (buffer \<times> int32) option" where
  "write_event_json event b off buffer_size leading_comma =
     (case (if leading_comma \<and> 2 \<le> buffer_size
            then (case store b off CHR '','' of
                    None \<Rightarrow> None
                  | Some b1 \<Rightarrow> Some (b1, Suc off, buffer_size - 1))
            else Some (b, off, buffer_size)) of
        None \<Rightarrow> None
      | Some (b1, off1, size1) \<Rightarrow>
          (case snprintf b1 off1 size1 (event_json event) of
             None \<Rightarrow> None
           | Some (b2, needed) \<Rightarrow>
               if size1 \<le> needed then Some (b2, - 1)
               else Some (b2, needed + (if leading_comma then 1 else 0))))"

section \<open>update\_event\_json (lines 150 to 183)\<close>

text \<open>
  The array \<open>zone_events_json\<close> is the argument \<open>b\<close>, and \<open>sizeof(zone_events_json)\<close>
  is its length.  \<open>events_loop\<close> is the range-for loop with its variables \<open>first\<close> and
  \<open>idx\<close>; \<open>break\<close> ends the recursion.
\<close>

fun events_loop ::
  "buffer \<Rightarrow> ZoneEvent list \<Rightarrow> bool \<Rightarrow> size_t \<Rightarrow> (buffer \<times> size_t) option" where
  "events_loop b [] first idx = Some (b, idx)"
| "events_loop b (event # rest) first idx =
     (let free_space = (of_nat (length b) :: size_t) - idx - 1
      in case write_event_json event b (unat idx) free_space (\<not> first) of
           None \<Rightarrow> None
         | Some (b', written) \<Rightarrow>
             if written <s 0 then Some (b', idx)
             else events_loop b' rest False (idx + written))"

definition update_event_json :: "buffer \<Rightarrow> ZoneEvent list \<Rightarrow> (buffer \<times> int32) option" where
  "update_event_json b zone_events =
     (if (of_nat (length b) :: size_t) < 3 then Some (b, 0)
      else case store b 0 CHR ''['' of
             None \<Rightarrow> None
           | Some b1 \<Rightarrow>
               (case events_loop b1 zone_events True 1 of
                  None \<Rightarrow> None
                | Some (b2, idx) \<Rightarrow>
                    (case store b2 (unat idx) CHR '']'' of
                       None \<Rightarrow> None
                     | Some b3 \<Rightarrow>
                         (case store b3 (unat (idx + 1)) NUL of
                            None \<Rightarrow> None
                          | Some b4 \<Rightarrow> Some (b4, idx + 1)))))"

section \<open>read\_all\_zones (lines 189 to 243)\<close>

text \<open>
  The globals of the program.  \<open>published\<close> records the calls of \<open>Particle.publish\<close>
  made so far, oldest first, each with its event name and its data string.
\<close>

record globals =
  polls :: int32
  last_poll :: int32
  last_event :: int32
  zone_list :: "ZoneInfo list"
  zone_events :: "ZoneEvent list"
  zone_events_json :: buffer
  published :: "(string \<times> string) list"

text \<open>
  What one call of \<open>read_all_zones\<close> reads from its collaborators: for the zone at
  position \<open>i\<close> of \<open>zone_list\<close> whether \<open>digitalRead\<close> gives HIGH and what \<open>Time.now()\<close>
  gives inside that iteration, what \<open>Time.now()\<close> gives after the loop, and the bytes
  found in the uninitialised local array \<open>buff\<close>.
\<close>

record poll_input =
  raw_high :: "nat \<Rightarrow> bool"
  event_now :: "nat \<Rightarrow> int32"
  poll_now :: int32
  stack :: buffer

text \<open>The local array \<open>char buff[64]\<close>: 64 bytes, whatever the stack held.\<close>

definition buff_init :: "poll_input \<Rightarrow> buffer" where
  "buff_init inp = take 64 (stack inp @ replicate 64 NUL)"

text \<open>
  One iteration of the loop over \<open>zone_list\<close> (lines 197 to 229), on the zone, the
  globals, the array \<open>buff\<close> and the flag \<open>new_event\<close>.
\<close>

definition zone_body ::
  "bool \<Rightarrow> int32 \<Rightarrow> ZoneInfo \<Rightarrow> globals \<times> buffer \<times> bool
     \<Rightarrow> (ZoneInfo \<times> globals \<times> buffer \<times> bool) option" where
  "zone_body high now zone s =
     (case s of (g, buff, new_event) \<Rightarrow>
        (let previous_demand = demand zone;
             zone' = debounce high zone
         in if previous_demand \<noteq> demand zone' then
              (let event_time = now;
                   events = push_event \<lparr>info = zone', time = event_time, demand_e = demand zone'\<rparr>
                              (zone_events g)
               in case write_event_json (hd events) buff 0 (of_nat (length buff)) False of
                    None \<Rightarrow> None
                  | Some (buff', written) \<Rightarrow>
                      (case cstr buff' of
                         None \<Rightarrow> None
                       | Some data \<Rightarrow>
                           Some (zone',
                                 g\<lparr>zone_events := events,
                                   published := published g @ [(''zone_demand'', data)]\<rparr>,
                                 buff', True)))
            else Some (zone', g, buff, new_event)))"

fun zones_loop ::
  "poll_input \<Rightarrow> nat \<Rightarrow> ZoneInfo list \<Rightarrow> globals \<times> buffer \<times> bool
     \<Rightarrow> (ZoneInfo list \<times> globals \<times> buffer \<times> bool) option" where
  "zones_loop inp i [] s = Some ([], s)"
| "zones_loop inp i (zone # zones) s =
     (case zone_body (raw_high inp i) (event_now inp i) zone s of
        None \<Rightarrow> None
      | Some (zone', s') \<Rightarrow>
          (case zones_loop inp (Suc i) zones s' of
             None \<Rightarrow> None
           | Some (zones', s'') \<Rightarrow> Some (zone' # zones', s'')))"

definition read_all_zones :: "poll_input \<Rightarrow> globals \<Rightarrow> globals option" where
  "read_all_zones inp g =
     (case zones_loop inp 0 (zone_list g) (g, buff_init inp, False) of
        None \<Rightarrow> None
      | Some (zones, g1, buff, new_event) \<Rightarrow>
          (let time = poll_now inp;
               g2 = g1\<lparr>zone_list := zones, last_poll := time, polls := polls g1 + 1\<rparr>;
               g3 = (if polls g2 <s 0 then g2\<lparr>polls := 0\<rparr> else g2)
           in if new_event then
                (case update_event_json (zone_events_json g3) (zone_events g3) of
                   None \<Rightarrow> None
                 | Some (json, n) \<Rightarrow> Some (g3\<lparr>zone_events_json := json, last_event := time\<rparr>))
              else Some g3))"

text \<open>The globals as the program starts, and a run of polls, first poll first.\<close>

definition globals_init :: "16 word \<Rightarrow> 16 word \<Rightarrow> 16 word \<Rightarrow> globals" where
  "globals_init D4 D5 D6 =
     \<lparr>polls = 0, last_poll = 0, last_event = 0,
      zone_list = zone_list_init D4 D5 D6,
      zone_events = [],
      zone_events_json = ''[]'' @ replicate 618 NUL,
      published = []\<rparr>"

fun run_polls :: "poll_input list \<Rightarrow> globals \<Rightarrow> globals option" where
  "run_polls [] g = Some g"
| "run_polls (inp # inps) g =
     (case read_all_zones inp g of None \<Rightarrow> None | Some g' \<Rightarrow> run_polls inps g')"

section \<open>JSON texts\<close>

text \<open>
  The grammar of JSON texts without white space, as far as the encoder needs it:
  integers, strings without escapes, arrays and objects.  Each relation reads a
  prefix of its first argument and leaves the second.
\<close>

definition is_digit :: "char \<Rightarrow> bool" where
  "is_digit c \<longleftrightarrow> c \<in> set ''0123456789''"

definition is_plain :: "char \<Rightarrow> bool" where
  \<open>is_plain c \<longleftrightarrow> c \<in> set ''abcdefghijklmnopqrstuvwxyzABCDEFGHIJKLMNOPQRSTUVWXYZ0123456789_''\<close>

inductive json_digits :: "string \<Rightarrow> string \<Rightarrow> bool" where
  digit: "is_digit c \<Longrightarrow> json_digits (c # r) r"
| digits: "is_digit c \<Longrightarrow> json_digits s r \<Longrightarrow> json_digits (c # s) r"

inductive json_unsigned :: "string \<Rightarrow> string \<Rightarrow> bool" where
  zero: "json_unsigned (CHR ''0'' # r) r"
| one: "is_digit c \<Longrightarrow> c \<noteq> CHR ''0'' \<Longrightarrow> json_unsigned (c # r) r"
| more: "is_digit c \<Longrightarrow> c \<noteq> CHR ''0'' \<Longrightarrow> json_digits s r \<Longrightarrow> json_unsigned (c # s) r"

inductive json_number :: "string \<Rightarrow> string \<Rightarrow> bool" where
  pos: "json_unsigned s r \<Longrightarrow> json_number s r"
| neg: "json_unsigned s r \<Longrightarrow> json_number (CHR ''-'' # s) r"

inductive json_chars :: "string \<Rightarrow> string \<Rightarrow> bool" where
  quote: "json_chars (CHR 0x22 # r) r"
| plain: "is_plain c \<Longrightarrow> json_chars s r \<Longrightarrow> json_chars (c # s) r"

inductive json_string :: "string \<Rightarrow> string \<Rightarrow> bool" where
  string: "json_chars s r \<Longrightarrow> json_string (CHR 0x22 # s) r"

inductive json_value :: "string \<Rightarrow> string \<Rightarrow> bool"
  and json_elements :: "string \<Rightarrow> string \<Rightarrow> bool"
  and json_members :: "string \<Rightarrow> string \<Rightarrow> bool" where
  num: "json_number s r \<Longrightarrow> json_value s r"
| str: "json_string s r \<Longrightarrow> json_value s r"
| empty_array: "json_value (CHR ''['' # CHR '']'' # r) r"
| array: "json_elements s (CHR '']'' # r) \<Longrightarrow> json_value (CHR ''['' # s) r"
| empty_object: "json_value (CHR ''{'' # CHR ''}'' # r) r"
| object: "json_members s (CHR ''}'' # r) \<Longrightarrow> json_value (CHR ''{'' # s) r"
| last_element: "json_value s r \<Longrightarrow> json_elements s r"
| element: "json_value s (CHR '','' # t) \<Longrightarrow> json_elements t r \<Longrightarrow> json_elements s r"
| last_member: "json_string s (CHR '':'' # t) \<Longrightarrow> json_value t r \<Longrightarrow> json_members s r"
| member: "json_string s (CHR '':'' # t) \<Longrightarrow> json_value t (CHR '','' # u)
             \<Longrightarrow> json_members u r \<Longrightarrow> json_members s r"

code_pred (modes: i \<Rightarrow> o \<Rightarrow> bool, i \<Rightarrow> i \<Rightarrow> bool) json_digits .
code_pred (modes: i \<Rightarrow> o \<Rightarrow> bool, i \<Rightarrow> i \<Rightarrow> bool) json_unsigned .
code_pred (modes: i \<Rightarrow> o \<Rightarrow> bool, i \<Rightarrow> i \<Rightarrow> bool) json_number .
code_pred (modes: i \<Rightarrow> o \<Rightarrow> bool, i \<Rightarrow> i \<Rightarrow> bool) json_chars .
code_pred (modes: i \<Rightarrow> o \<Rightarrow> bool, i \<Rightarrow> i \<Rightarrow> bool) json_string .
code_pred (modes: i \<Rightarrow> o \<Rightarrow> bool, i \<Rightarrow> i \<Rightarrow> bool) json_value .

text \<open>A JSON array: a text that is a JSON value and opens with a bracket.\<close>

definition json_array :: "string \<Rightarrow> bool" where
  "json_array s \<longleftrightarrow> (case s of [] \<Rightarrow> False | c # t \<Rightarrow> c = CHR ''['' \<and> json_value s [])"

text \<open>
  The events the encoder keeps in an array of \<open>cap\<close> bytes when it stands at index
  \<open>idx\<close>: an event is kept while its text, its comma, the closing bracket and the NUL
  still fit; the first event that does not fit ends the array.
\<close>

definition comma_len :: "bool \<Rightarrow> nat" where
  "comma_len leading_comma = (if leading_comma then 1 else 0)"

fun kept :: "nat \<Rightarrow> nat \<Rightarrow> bool \<Rightarrow> ZoneEvent list \<Rightarrow> ZoneEvent list" where
  "kept cap idx first [] = []"
| "kept cap idx first (e # es) =
     (let need = length (event_json e) + comma_len (\<not> first)
      in if idx + need + 2 \<le> cap then e # kept cap (idx + need) False es else [])"

text \<open>The array the encoder aims at: the events in order, separated by commas.\<close>

fun join_events :: "ZoneEvent list \<Rightarrow> string" where
  "join_events [] = []"
| "join_events [e] = event_json e"
| "join_events (e # es) = event_json e @ CHR '','' # join_events es"

definition array_json :: "ZoneEvent list \<Rightarrow> string" where
  "array_json es = CHR ''['' # join_events es @ '']''"

text \<open>
  What a reader of the array sees after update\_event\_json: the C string it holds and
  the returned length.
\<close>

definition rendered :: "buffer \<Rightarrow> ZoneEvent list \<Rightarrow> (string \<times> int32) option" where
  "rendered b events =
     (case update_event_json b events of
        None \<Rightarrow> None
      | Some (b', n) \<Rightarrow> (case cstr b' of None \<Rightarrow> None | Some s \<Rightarrow> Some (s, n)))"

text \<open>The event of the truncation scenario: zone 0 turned on at time 1000.\<close>

definition scenario_text :: string where
  \<open>scenario_text = ''{"id":0,"t":1000,"on":1}''\<close>

definition scenario_event :: ZoneEvent where
  "scenario_event =
     \<lparr>info = \<lparr>id_z = 0, pin = 0, count = 405, demand = True_D\<rparr>, time = 1000, demand_e = True_D\<rparr>"

section \<open>What a poll does to the zones and to the log\<close>

text \<open>
  The zones after the loop of read\_all\_zones, and the events the loop logs: one for
  each zone whose demand after its iteration differs from the demand before, in the
  order of the zones.  Both follow the loop zone by zone; the zone at the head has
  position \<open>i\<close>.
\<close>

fun debounce_zones :: "poll_input \<Rightarrow> nat \<Rightarrow> ZoneInfo list \<Rightarrow> ZoneInfo list" where
  "debounce_zones inp i [] = []"
| "debounce_zones inp i (zone # zones) =
     debounce (raw_high inp i) zone # debounce_zones inp (Suc i) zones"

fun poll_events :: "poll_input \<Rightarrow> nat \<Rightarrow> ZoneInfo list \<Rightarrow> ZoneEvent list" where
  "poll_events inp i [] = []"
| "poll_events inp i (zone # zones) =
     (let zone' = debounce (raw_high inp i) zone
      in (if demand zone \<noteq> demand zone'
          then [\<lparr>info = zone', time = event_now inp i, demand_e = demand zone'\<rparr>]
          else []) @ poll_events inp (Suc i) zones)"

text \<open>The steps a demand may take in one observation: none, or one of the four.\<close>

definition demand_step :: "Demand \<Rightarrow> Demand \<Rightarrow> bool" where
  "demand_step d d' \<longleftrightarrow>
     d' = d \<or> (d = Unknown \<and> d' = True_D) \<or> (d = Unknown \<and> d' = False_D)
       \<or> (d = True_D \<and> d' = False_D) \<or> (d = False_D \<and> d' = True_D)"

text \<open>The globals after the loop and the bookkeeping of read\_all\_zones.\<close>

definition after_poll :: "poll_input \<Rightarrow> globals \<Rightarrow> globals" where
  "after_poll inp g =
     g\<lparr>zone_events := push_all (poll_events inp 0 (zone_list g)) (zone_events g),
       published := published g @
          map (\<lambda>e. (''zone_demand'', event_json e)) (poll_events inp 0 (zone_list g)),
       zone_list := debounce_zones inp 0 (zone_list g),
       last_poll := poll_now inp,
       polls := (if polls g + 1 <s 0 then 0 else polls g + 1)\<rparr>"

text \<open>What every reachable state satisfies.\<close>

definition state_ok :: "globals \<Rightarrow> bool" where
  "state_ok g \<longleftrightarrow>
     length (zone_events_json g) = 620 \<and> length (zone_events g) \<le> 20
     \<and> list_all (\<lambda>e. demand_e e \<noteq> Unknown) (zone_events g)
     \<and> list_all in_hyst_range (zone_list g)"

section \<open>Counter arithmetic\<close>

lemma sint_dec:
  fixes c :: int32
  assumes "0 \<le> sint c" "sint c \<le> 500"
  shows "sint (c - 1) = sint c - 1"
  using assms by (simp add: sint_word_ariths signed_take_bit_int_eq_self)

lemma sint_inc5:
  fixes c :: int32
  assumes "0 \<le> sint c" "sint c \<le> 500"
  shows "sint (c + 5) = sint c + 5"
  using assms by (simp add: sint_word_ariths signed_take_bit_int_eq_self)

lemma in_hyst_range_iff: "in_hyst_range z \<longleftrightarrow> 0 \<le> sint (count z) \<and> sint (count z) \<le> 500"
  by (simp add: in_hyst_range_def HYST_MIN_def HYST_MAX_def word_sle_eq)

lemma sint_count_boundary_check:
  assumes "in_hyst_range z"
  shows "sint (count (boundary_check high z)) =
           (if high then max 0 (sint (count z) - 1) else min 500 (sint (count z) + 5))"
proof -
  from assms have r: "0 \<le> sint (count z)" "sint (count z) \<le> 500"
    by (simp_all add: in_hyst_range_iff)
  show ?thesis
  proof (cases high)
    case True
    with r show ?thesis
      by (simp add: boundary_check_def Let_def HYST_MIN_def word_sless_alt sint_dec)
  next
    case False
    with r show ?thesis
      by (simp add: boundary_check_def Let_def HYST_MAX_def word_sless_alt sint_inc5)
  qed
qed

lemma boundary_check_in_range:
  assumes "in_hyst_range z"
  shows "in_hyst_range (boundary_check high z)"
  using assms sint_count_boundary_check [OF assms, of high]
  by (simp add: in_hyst_range_iff split: if_splits)

lemma count_status_update [simp]: "count (status_update high z) = count z"
  by (simp add: status_update_def)

lemma count_debounce: "count (debounce high z) = count (boundary_check high z)"
  by (simp add: debounce_def)

lemma debounce_in_range:
  assumes "in_hyst_range z"
  shows "in_hyst_range (debounce high z)"
  using boundary_check_in_range [OF assms, of high]
  by (simp add: in_hyst_range_def count_debounce)

lemma observe_all_in_range:
  assumes "in_hyst_range z"
  shows "in_hyst_range (observe_all rs z)"
  using assms unfolding observe_all_def
  by (induction rs arbitrary: z) (simp_all add: debounce_in_range)

lemma zone_list_init_in_range:
  assumes "z \<in> set (zone_list_init D4 D5 D6)"
  shows "in_hyst_range z"
  using assms by (auto simp: zone_list_init_def in_hyst_range_iff HYST_MAX_def)

section \<open>Stores and decimal numbers\<close>


lemma store_bytes_ok:
  "i + length cs \<le> length b \<Longrightarrow>
     store_bytes b i cs = Some (take i b @ cs @ drop (i + length cs) b)"
proof (induction cs arbitrary: b i)
  case Nil
  then show ?case by simp
next
  case (Cons c cs)
  then have i: "i < length b" by simp
  have upd: "b[i := c] = take i b @ c # drop (Suc i) b"
    using i by (rule upd_conv_take_nth_drop)
  have "store_bytes (b[i := c]) (Suc i) cs =
          Some (take (Suc i) (b[i := c]) @ cs @ drop (Suc i + length cs) (b[i := c]))"
    using Cons.prems by (intro Cons.IH) simp
  moreover have "take (Suc i) (b[i := c]) = take i b @ [c]"
    using i by (simp add: upd take_Suc_conv_app_nth)
  moreover have "drop (Suc i + length cs) (b[i := c]) = drop (Suc i + length cs) b"
    by simp
  ultimately show ?case using i by (simp add: store_def)
qed

lemma digit_nth: "n < 10 \<Longrightarrow> is_digit (''0123456789'' ! n)"
  unfolding is_digit_def by (rule nth_mem) simp

lemma digit_nth_nonzero:
  assumes "n < 10" "0 < n"
  shows "''0123456789'' ! n \<noteq> CHR ''0''"
proof -
  from assms have "n \<in> {1, 2, 3, 4, 5, 6, 7, 8, 9}" by auto
  then show ?thesis by auto
qed

lemma dec_nat_not_Nil: "dec_nat n \<noteq> []"
  by (subst dec_nat.simps) simp

lemma dec_nat_digits: "c \<in> set (dec_nat n) \<Longrightarrow> is_digit c"
proof (induction n rule: dec_nat.induct)
  case (1 n)
  then show ?case
    by (subst (asm) (2) dec_nat.simps) (auto simp: digit_nth split: if_splits)
qed

lemma dec_nat_hd: "0 < n \<Longrightarrow> hd (dec_nat n) \<noteq> CHR ''0''"
proof (induction n rule: dec_nat.induct)
  case (1 n)
  show ?case
  proof (cases "n < 10")
    case True
    with digit_nth_nonzero [OF True "1.prems"] show ?thesis
      by (subst dec_nat.simps) simp
  next
    case False
    then have "0 < n div 10" by simp
    with False "1.IH" have "hd (dec_nat (n div 10)) \<noteq> CHR ''0''" by simp
    with False show ?thesis
      by (subst dec_nat.simps) (simp add: dec_nat_not_Nil)
  qed
qed

lemma dec_nat_length: "0 < k \<Longrightarrow> n < 10 ^ k \<Longrightarrow> length (dec_nat n) \<le> k"
proof (induction n arbitrary: k rule: dec_nat.induct)
  case (1 n)
  show ?case
  proof (cases "n < 10")
    case True
    with "1.prems" show ?thesis by (subst dec_nat.simps) simp
  next
    case False
    with "1.prems" obtain j where k: "k = Suc j" by (cases k) auto
    with False "1.prems" have j: "0 < j" by (cases j) auto
    from k "1.prems" have "n div 10 < 10 ^ j"
      by (simp add: less_mult_imp_div_less mult.commute)
    with False j have "length (dec_nat (n div 10)) \<le> j" by (intro "1.IH") auto
    with False k show ?thesis by (subst dec_nat.simps) simp
  qed
qed

lemma dec_int_sint_length:
  fixes w :: int32
  shows "length (dec_int (sint w)) \<le> 11" and "1 \<le> length (dec_int (sint w))"
proof -
  have lo: "- (2 ^ 31) \<le> sint w" and hi: "sint w < 2 ^ 31"
    using sint_ge [of w] sint_lt [of w] by simp_all
  have "nat (- sint w) < 10 ^ 10" "nat (sint w) < 10 ^ 10"
    using lo hi by simp_all
  then have "length (dec_nat (nat (- sint w))) \<le> 10" "length (dec_nat (nat (sint w))) \<le> 10"
    by (simp_all add: dec_nat_length)
  then show "length (dec_int (sint w)) \<le> 11" by (simp add: dec_int_def)
  show "1 \<le> length (dec_int (sint w))"
    using dec_nat_not_Nil [of "nat (sint w)"] 
    by (cases "dec_nat (nat (sint w))") (simp_all add: dec_int_def)
qed

lemma NUL_not_digit: "is_digit c \<Longrightarrow> c \<noteq> NUL"
  by (auto simp: is_digit_def NUL_def)

lemma NUL_notin_dec_int: "NUL \<notin> set (dec_int i)"
  using NUL_not_digit dec_nat_digits by (auto simp: dec_int_def NUL_def)

lemma NUL_notin_event_json: "NUL \<notin> set (event_json e)"
  using NUL_notin_dec_int by (simp add: event_json_def ZONE_JSON_STRING_def) (simp add: NUL_def)

lemma dec_int_bit: "dec_int (sint (if p then 1 else 0 :: int32)) = (if p then ''1'' else ''0'')"
  by (simp add: dec_int_def dec_nat.simps [of 0] dec_nat.simps [of 1] dec_nat.simps [of "Suc 0"])

lemma length_event_json: "21 \<le> length (event_json e)" "length (event_json e) \<le> 41"
  using dec_int_sint_length [of "id_z (info e)"] dec_int_sint_length [of "time e"]
  by (simp_all add: event_json_def ZONE_JSON_STRING_def dec_int_bit)

section \<open>The encoder stays inside its array\<close>


lemma unat_of_nat32: "n < 2 ^ 32 \<Longrightarrow> unat (of_nat n :: 32 word) = n"
  by (simp add: unat_of_nat)

lemma sint_of_nat32: "n < 2 ^ 31 \<Longrightarrow> sint (of_nat n :: 32 word) = int n"
  by (simp add: signed_of_nat signed_take_bit_int_eq_self)

lemma snprintf_ok:
  assumes "off + unat n \<le> length b" "0 < unat n"
  shows "snprintf b off n s =
           Some (take off b @ take (unat n - 1) s @ [NUL]
                   @ drop (off + min (length s) (unat n - 1) + 1) b,
                 of_nat (length s))"
proof -
  from assms have "n \<noteq> 0" by auto
  moreover have "off + length (take (unat n - 1) s @ [NUL]) \<le> length b"
    using assms by simp
  ultimately show ?thesis
    by (simp add: snprintf_def store_bytes_ok add.commute)
qed

lemma store_ok: "i < length b \<Longrightarrow> store b i c = Some (take i b @ c # drop (Suc i) b)"
  by (simp add: store_def upd_conv_take_nth_drop)


text \<open>What write\_event\_json does when the size it is given lies inside the array.\<close>

lemma write_event_json_spec:
  fixes e :: ZoneEvent and lc :: bool
  assumes inside: "off + unat n \<le> length b" and pos: "0 < unat n"
  defines "L \<equiv> length (event_json e) + comma_len lc"
  shows "\<exists>b'. write_event_json e b off n lc = Some (b', if L < unat n then of_nat L else - 1)
            \<and> length b' = length b \<and> take off b' = take off b
            \<and> (L < unat n \<longrightarrow>
                 take (off + L + 1) b' =
                   take off b @ (if lc then '','' else []) @ event_json e @ [NUL])"
proof (cases "lc \<and> 2 \<le> n")
  case True
  then have n2: "2 \<le> unat n" by (simp add: word_le_nat_alt)
  then have n1: "unat (n - 1) = unat n - 1" by (intro unat_minus_one) auto
  let ?b1 = "take off b @ CHR '','' # drop (Suc off) b"
  have st: "store b off CHR '','' = Some ?b1"
    using inside n2 by (intro store_ok) simp
  have len1: "length ?b1 = length b" using inside n2 by simp
  have sn: "snprintf ?b1 (Suc off) (n - 1) (event_json e) =
              Some (take (Suc off) ?b1 @ take (unat (n - 1) - 1) (event_json e) @ [NUL]
                      @ drop (Suc off + min (length (event_json e)) (unat (n - 1) - 1) + 1) ?b1,
                    of_nat (length (event_json e)))"
    using inside n2 n1 len1 by (intro snprintf_ok) simp_all
  have needed: "unat (of_nat (length (event_json e)) :: 32 word) = length (event_json e)"
    using length_event_json(2) [of e] by (intro unat_of_nat32) simp
  have cmp: "n - 1 \<le> (of_nat (length (event_json e)) :: 32 word) \<longleftrightarrow> \<not> L < unat n"
    using n2 True by (simp add: word_le_nat_alt needed n1 L_def comma_len_def) arith
  have tk: "take (Suc off) ?b1 = take off b @ '',''"
    using inside n2 by simp
  show ?thesis
    using True inside n2 length_event_json [of e]
    by (simp add: write_event_json_def st sn cmp tk n1 L_def comma_len_def) arith
next
  case False
  have sn: "snprintf b off n (event_json e) =
              Some (take off b @ take (unat n - 1) (event_json e) @ [NUL]
                      @ drop (off + min (length (event_json e)) (unat n - 1) + 1) b,
                    of_nat (length (event_json e)))"
    using inside pos by (rule snprintf_ok)
  have needed: "unat (of_nat (length (event_json e)) :: 32 word) = length (event_json e)"
    using length_event_json(2) [of e] by (intro unat_of_nat32) simp
  show ?thesis
  proof (cases lc)
    case True
    with False have "unat n < 2" by (simp add: word_le_nat_alt)
    with pos have n1: "unat n = 1" by simp
    have cmp: "n \<le> (of_nat (length (event_json e)) :: 32 word)"
      using length_event_json(1) [of e] by (simp add: word_le_nat_alt needed n1)
    have "\<not> L < unat n" using n1 True by (simp add: L_def comma_len_def)
    then show ?thesis
      using False True inside n1
      by (simp add: write_event_json_def sn cmp)
  next
    case lc: False
    have cmp: "n \<le> (of_nat (length (event_json e)) :: 32 word) \<longleftrightarrow> \<not> L < unat n"
      by (simp add: word_le_nat_alt needed L_def comma_len_def lc) arith
    show ?thesis
      using lc inside pos
      by (simp add: write_event_json_def sn cmp L_def comma_len_def) arith
  qed
qed

lemma join_events_snoc:
  "join_events (es @ [e]) = join_events es @ (if es = [] then [] else '','') @ event_json e"
  by (induction es rule: join_events.induct) simp_all

lemma cstr_prefix:
  assumes "take (Suc (length s)) b = s @ [NUL]" "NUL \<notin> set s"
  shows "cstr b = Some s"
proof -
  define r where "r = drop (Suc (length s)) b"
  have b: "b = s @ NUL # r"
    using assms(1) append_take_drop_id [of "Suc (length s)" b] by (simp add: r_def)
  have "takeWhile (\<lambda>c. c \<noteq> NUL) (s @ NUL # r) = s @ takeWhile (\<lambda>c. c \<noteq> NUL) (NUL # r)"
    by (rule takeWhile_append2) (use assms(2) in auto)
  then show ?thesis by (simp add: cstr_def b)
qed

lemma take_snoc_eq:
  assumes "take (Suc n) xs = ys @ [c]" "length ys = n"
  shows "take n xs = ys"
proof -
  have "take n xs = take n (take (Suc n) xs)" by simp
  also have "\<dots> = take n (ys @ [c])" by (simp only: assms(1))
  also have "\<dots> = ys" using assms(2) by simp
  finally show ?thesis .
qed

lemma events_loop_spec:
  assumes "length b < 2 ^ 32" "1 \<le> unat idx" "unat idx + 2 \<le> length b"
    and "take (unat idx) b = CHR ''['' # join_events done" "first \<longleftrightarrow> done = []"
  shows "\<exists>b' idx'. events_loop b es first idx = Some (b', idx')
           \<and> length b' = length b \<and> unat idx' + 2 \<le> length b
           \<and> take (unat idx') b' =
                CHR ''['' # join_events (done @ kept (length b) (unat idx) first es)"
  using assms
proof (induction es arbitrary: b idx first "done")
  case Nil
  then show ?case by simp
next
  case (Cons e es)
  let ?cap = "of_nat (length b) :: 32 word"
  let ?n = "?cap - idx - 1"
  let ?L = "length (event_json e) + comma_len (\<not> first)"
  have cap: "unat ?cap = length b" using Cons.prems(1) by (simp add: unat_of_nat32)
  have le: "idx \<le> ?cap" using Cons.prems(3) by (simp add: word_le_nat_alt cap)
  have d1: "unat (?cap - idx) = length b - unat idx" using le by (simp add: unat_sub cap)
  have n: "unat ?n = length b - unat idx - 1"
    using Cons.prems(3) d1 by (subst unat_minus_one) auto
  have inside: "unat idx + unat ?n \<le> length b" and pos: "0 < unat ?n"
    using Cons.prems(3) n by simp_all
  from write_event_json_spec [OF inside pos, of e "\<not> first"]
  obtain b' where w: "write_event_json e b (unat idx) ?n (\<not> first) =
        Some (b', if ?L < unat ?n then of_nat ?L else - 1)"
    and len': "length b' = length b" and pre: "take (unat idx) b' = take (unat idx) b"
    and suc: "?L < unat ?n \<longrightarrow> take (unat idx + ?L + 1) b' =
        take (unat idx) b @ (if \<not> first then '','' else []) @ event_json e @ [NUL]"
    by blast
  have Lb: "?L \<le> 42" using length_event_json(2) [of e] by (simp add: comma_len_def)
  show ?case
  proof (cases "?L < unat ?n")
    case False
    then have nf: "\<not> unat idx + ?L + 2 \<le> length b"
      using n by simp
    have neg: "(- 1 :: 32 word) <s 0" by simp
    show ?thesis
      using False w len' pre Cons.prems(3,4) neg nf
      by (simp add: Let_def)
  next
    case True
    then have fits: "unat idx + ?L + 2 \<le> length b" using n by simp
    then have k: "kept (length b) (unat idx) first (e # es) =
        e # kept (length b) (unat idx + ?L) False es"
      by (simp add: Let_def)
    have sL: "sint (of_nat ?L :: 32 word) = int ?L" using Lb by (intro sint_of_nat32) simp
    have nonneg: "\<not> (of_nat ?L :: 32 word) <s 0"
      unfolding word_sless_alt sL by simp
    have uL: "unat (of_nat ?L :: 32 word) = ?L" using Lb by (intro unat_of_nat32) simp
    have idx': "unat (idx + of_nat ?L) = unat idx + ?L"
      using fits Cons.prems(1) uL by (subst unat_add_lem [THEN iffD1]) simp_all
    have full: "take (unat idx + ?L + 1) b' =
        (CHR ''['' # join_events (done @ [e])) @ [NUL]"
      using suc True Cons.prems(4,5) by (simp add: join_events_snoc)
    have lenj: "length (CHR ''['' # join_events (done @ [e])) = unat idx + ?L"
      using arg_cong [OF full, of length] fits len' by simp
    have full': "take (Suc (unat idx + ?L)) b' = (CHR ''['' # join_events (done @ [e])) @ [NUL]"
      using full by (simp only: Suc_eq_plus1)
    have "take (unat idx + ?L) b' = CHR ''['' # join_events (done @ [e])"
      by (rule take_snoc_eq [OF full' lenj])
    then have inv: "take (unat (idx + of_nat ?L)) b' = CHR ''['' # join_events (done @ [e])"
      by (simp only: idx')
    have "\<exists>b'' idx''. events_loop b' es False (idx + of_nat ?L) = Some (b'', idx'')
           \<and> length b'' = length b' \<and> unat idx'' + 2 \<le> length b'
           \<and> take (unat idx'') b'' =
                CHR ''['' # join_events ((done @ [e]) @ kept (length b') (unat (idx + of_nat ?L)) False es)"
      using Cons.prems(1,2) fits len' idx' inv by (intro Cons.IH) (simp_all del: of_nat_add)
    then show ?thesis
      using True w nonneg len' idx' fits by (simp add: Let_def del: of_nat_add)
  qed
qed

lemma NUL_notin_join_events: "NUL \<notin> set (join_events es)"
  by (induction es rule: join_events.induct) (simp_all add: NUL_notin_event_json, simp add: NUL_def)

lemma NUL_notin_array_json: "NUL \<notin> set (array_json es)"
  using NUL_notin_join_events [of es] by (simp add: array_json_def) (simp add: NUL_def)

lemma take_Suc_append_Cons: "length xs = n \<Longrightarrow> take (Suc n) (xs @ c # r) = xs @ [c]"
  by simp

text \<open>The whole of update\_event\_json on an array of 3 bytes or more.\<close>

lemma update_event_json_spec:
  fixes es :: "ZoneEvent list"
  assumes "3 \<le> length b" "length b < 2 ^ 31"
  defines "K \<equiv> kept (length b) 1 True es"
  shows "\<exists>b'. update_event_json b es = Some (b', of_nat (length (array_json K)))
            \<and> length b' = length b
            \<and> length (array_json K) < length b
            \<and> take (Suc (length (array_json K))) b' = array_json K @ [NUL]"
proof -
  have cap: "unat (of_nat (length b) :: 32 word) = length b"
    using assms(2) by (intro unat_of_nat32) simp
  have big: "\<not> (of_nat (length b) :: 32 word) < 3"
    using assms(1) by (simp add: word_less_nat_alt cap)
  define b1 where "b1 = take 0 b @ CHR ''['' # drop (Suc 0) b"
  have st1: "store b 0 CHR ''['' = Some b1"
    unfolding b1_def using assms(1) by (intro store_ok) auto
  have len1: "length b1 = length b" using assms(1) by (auto simp: b1_def)
  have tk1: "take (unat (1 :: 32 word)) b1 = CHR ''['' # join_events []"
    by (simp add: b1_def)
  have "\<exists>b' idx'. events_loop b1 es True 1 = Some (b', idx')
           \<and> length b' = length b1 \<and> unat idx' + 2 \<le> length b1
           \<and> take (unat idx') b' =
                CHR ''['' # join_events ([] @ kept (length b1) (unat (1 :: 32 word)) True es)"
    using assms(1,2) len1 tk1 by (intro events_loop_spec) simp_all
  then obtain b2 idx where loop: "events_loop b1 es True 1 = Some (b2, idx)"
    and len2: "length b2 = length b" and room: "unat idx + 2 \<le> length b"
    and pre: "take (unat idx) b2 = CHR ''['' # join_events K"
    using len1 by (auto simp: K_def)
  have lp: "length (take (unat idx) b2) = unat idx"
    using room len2 by simp
  have lidx: "unat idx = Suc (length (join_events K))"
    using lp by (simp only: pre) simp
  define b3 where "b3 = take (unat idx) b2 @ CHR '']'' # drop (Suc (unat idx)) b2"
  have st3: "store b2 (unat idx) CHR '']'' = Some b3"
    unfolding b3_def using room len2 by (intro store_ok) simp
  have len3: "length b3 = length b" using room len2 by (simp add: b3_def)
  have idx1: "unat (idx + 1) = Suc (unat idx)"
    using room assms(2) by (subst unat_add_lem [THEN iffD1]) simp_all
  define b4 where "b4 = take (Suc (unat idx)) b3 @ NUL # drop (Suc (Suc (unat idx))) b3"
  have st4: "store b3 (unat (idx + 1)) NUL = Some b4"
    unfolding idx1 b4_def using room len3 by (intro store_ok) simp
  have len4: "length b4 = length b" using room len3 by (simp add: b4_def)
  have "take (Suc (unat idx)) b3 = take (unat idx) b2 @ '']''"
    unfolding b3_def using lp by (rule take_Suc_append_Cons)
  then have t3: "take (Suc (unat idx)) b3 = array_json K"
    by (simp only: pre array_json_def append_Cons)
  have la: "length (array_json K) = Suc (unat idx)"
    by (simp add: array_json_def lidx)
  have lq: "length (take (Suc (unat idx)) b3) = Suc (unat idx)"
    by (simp only: t3 la)
  have "take (Suc (Suc (unat idx))) b4 = take (Suc (unat idx)) b3 @ [NUL]"
    unfolding b4_def using lq by (rule take_Suc_append_Cons)
  then have t4: "take (Suc (length (array_json K))) b4 = array_json K @ [NUL]"
    by (simp only: la t3)
  have ret: "idx + 1 = (of_nat (length (array_json K)) :: 32 word)"
    by (simp add: la)
  have "update_event_json b es = Some (b4, idx + 1)"
    by (simp add: update_event_json_def big st1 loop st3 st4)
  with len4 t4 la room show ?thesis
    unfolding ret by auto
qed

lemma update_event_json_cstr:
  assumes "3 \<le> length b" "length b < 2 ^ 31"
  shows "\<exists>b' n. update_event_json b es = Some (b', n) \<and> length b' = length b
           \<and> cstr b' = Some (array_json (kept (length b) 1 True es))
           \<and> sint n = int (length (array_json (kept (length b) 1 True es)))
           \<and> b' ! unat n = NUL \<and> unat n < length b"
proof -
  let ?s = "array_json (kept (length b) 1 True es)"
  from update_event_json_spec [OF assms, of es]
  obtain b' where u: "update_event_json b es = Some (b', of_nat (length ?s))"
    and len: "length b' = length b" and lt: "length ?s < length b"
    and tk: "take (Suc (length ?s)) b' = ?s @ [NUL]"
    by blast
  have c: "cstr b' = Some ?s"
    using tk NUL_notin_array_json by (rule cstr_prefix)
  have s: "sint (of_nat (length ?s) :: 32 word) = int (length ?s)"
    using lt assms(2) by (intro sint_of_nat32) simp
  have un: "unat (of_nat (length ?s) :: 32 word) = length ?s"
    using lt assms(2) by (intro unat_of_nat32) simp
  have "b' ! length ?s = take (Suc (length ?s)) b' ! length ?s" by simp
  also have "\<dots> = NUL" by (simp only: tk nth_append_length)
  finally have "b' ! length ?s = NUL" .
  with u len c s un lt show ?thesis by simp
qed

section \<open>The encoder writes JSON\<close>

lemma json_digits_all:
  "ds \<noteq> [] \<Longrightarrow> (\<And>c. c \<in> set ds \<Longrightarrow> is_digit c) \<Longrightarrow> json_digits (ds @ r) r"
proof (induction ds)
  case Nil
  then show ?case by simp
next
  case (Cons d ds)
  show ?case
  proof (cases "ds = []")
    case True
    with Cons.prems show ?thesis by (simp add: json_digits.digit)
  next
    case False
    with Cons have "json_digits (ds @ r) r" by simp
    with Cons.prems show ?thesis by (simp add: json_digits.digits)
  qed
qed

lemma dec_nat_0: "dec_nat 0 = ''0''"
  by (simp add: dec_nat.simps [of 0])

lemma json_unsigned_dec_nat: "json_unsigned (dec_nat n @ r) r"
proof (cases "dec_nat n")
  case Nil
  with dec_nat_not_Nil show ?thesis by simp
next
  case (Cons d ds)
  have dig: "\<And>c. c \<in> set (d # ds) \<Longrightarrow> is_digit c"
    using dec_nat_digits [of _ n] by (simp only: Cons)
  show ?thesis
  proof (cases "n = 0")
    case True
    then show ?thesis by (simp add: dec_nat_0 json_unsigned.zero)
  next
    case False
    then have "hd (dec_nat n) \<noteq> CHR ''0''" by (simp add: dec_nat_hd)
    then have d0: "d \<noteq> CHR ''0''" by (simp add: Cons)
    show ?thesis
    proof (cases "ds = []")
      case True
      with d0 dig show ?thesis by (simp add: Cons json_unsigned.one)
    next
      case False
      then have "json_digits (ds @ r) r" using dig by (intro json_digits_all) simp_all
      with d0 dig show ?thesis by (simp add: Cons json_unsigned.more)
    qed
  qed
qed

lemma json_number_dec_int: "json_number (dec_int i @ r) r"
  using json_unsigned_dec_nat by (simp add: dec_int_def json_number.pos json_number.neg)

lemma json_value_dec_int: "json_value (dec_int i @ r) r"
  by (rule json_value_json_elements_json_members.num) (rule json_number_dec_int)

lemma json_key_id: \<open>json_string (''"id"'' @ r) r\<close>
  by (simp add: is_plain_def json_string.string json_chars.plain json_chars.quote)

lemma json_key_t: \<open>json_string (''"t"'' @ r) r\<close>
  by (simp add: is_plain_def json_string.string json_chars.plain json_chars.quote)

lemma json_key_on: \<open>json_string (''"on"'' @ r) r\<close>
  by (simp add: is_plain_def json_string.string json_chars.plain json_chars.quote)

lemma json_value_ZONE_JSON_STRING: "json_value (ZONE_JSON_STRING a b c @ r) r"
proof -
  let ?vc = \<open>dec_int (sint c) @ CHR ''}'' # r\<close>
  let ?mc = \<open>''"on"'' @ CHR '':'' # ?vc\<close>
  let ?vb = \<open>dec_int (sint b) @ CHR '','' # ?mc\<close>
  let ?mb = \<open>''"t"'' @ CHR '':'' # ?vb\<close>
  let ?va = \<open>dec_int (sint a) @ CHR '','' # ?mb\<close>
  let ?ma = \<open>''"id"'' @ CHR '':'' # ?va\<close>
  have mc: \<open>json_members ?mc (CHR ''}'' # r)\<close>
    by (rule json_value_json_elements_json_members.last_member [OF json_key_on json_value_dec_int])
  have mb: \<open>json_members ?mb (CHR ''}'' # r)\<close>
    by (rule json_value_json_elements_json_members.member [OF json_key_t json_value_dec_int mc])
  have ma: \<open>json_members ?ma (CHR ''}'' # r)\<close>
    by (rule json_value_json_elements_json_members.member [OF json_key_id json_value_dec_int mb])
  have \<open>json_value (CHR ''{'' # ?ma) r\<close>
    using ma by (rule json_value_json_elements_json_members.object)
  moreover have \<open>ZONE_JSON_STRING a b c @ r = CHR ''{'' # ?ma\<close>
    by (simp add: ZONE_JSON_STRING_def)
  ultimately show ?thesis by simp
qed

lemma json_value_event_json: "json_value (event_json e @ r) r"
  unfolding event_json_def by (rule json_value_ZONE_JSON_STRING)

lemma json_elements_join_events: "es \<noteq> [] \<Longrightarrow> json_elements (join_events es @ r) r"
proof (induction es rule: join_events.induct)
  case 1
  then show ?case by simp
next
  case (2 e)
  show ?case
    using json_value_event_json [of e r]
    by (simp add: json_value_json_elements_json_members.last_element)
next
  case (3 e e' es)
  have v: "json_value (event_json e @ CHR '','' # join_events (e' # es) @ r)
             (CHR '','' # join_events (e' # es) @ r)"
    by (rule json_value_event_json)
  have "json_elements (join_events (e' # es) @ r) r" using "3.IH" by simp
  with v have "json_elements (event_json e @ CHR '','' # join_events (e' # es) @ r) r"
    by (rule json_value_json_elements_json_members.element)
  then show ?case by simp
qed

lemma json_array_array_json: "json_array (array_json es)"
proof (cases "es = []")
  case True
  then show ?thesis
    by (simp add: json_array_def array_json_def json_value_json_elements_json_members.empty_array)
next
  case False
  then have "json_elements (join_events es @ '']'') '']''"
    by (rule json_elements_join_events)
  then have "json_value (CHR ''['' # join_events es @ '']'') []"
    by (rule json_value_json_elements_json_members.array)
  then show ?thesis by (simp add: json_array_def array_json_def)
qed

lemma kept_prefix: "\<exists>k \<le> length es. kept cap idx first es = take k es"
proof (induction es arbitrary: idx first)
  case Nil
  then show ?case by simp
next
  case (Cons e es)
  let ?need = "length (event_json e) + comma_len (\<not> first)"
  show ?case
  proof (cases "idx + ?need + 2 \<le> cap")
    case True
    from Cons.IH [of "idx + ?need" False]
    obtain k where "k \<le> length es" "kept cap (idx + ?need) False es = take k es" by blast
    with True have "Suc k \<le> length (e # es) \<and> kept cap idx first (e # es) = take (Suc k) (e # es)"
      by (simp add: Let_def)
    then show ?thesis by blast
  next
    case False
    then have "0 \<le> length (e # es) \<and> kept cap idx first (e # es) = take 0 (e # es)"
      by (simp add: Let_def)
    then show ?thesis by blast
  qed
qed

section \<open>The encoder: safety, small arrays, truncation\<close>

lemma rendered_eq:
  assumes "3 \<le> length b" "length b < 2 ^ 31"
  shows "rendered b es =
           Some (array_json (kept (length b) 1 True es),
                 of_nat (length (array_json (kept (length b) 1 True es))))"
proof -
  let ?s = "array_json (kept (length b) 1 True es)"
  from update_event_json_spec [OF assms, of es]
  obtain b' where u: "update_event_json b es = Some (b', of_nat (length ?s))"
    and tk: "take (Suc (length ?s)) b' = ?s @ [NUL]"
    by blast
  have "cstr b' = Some ?s"
    using tk NUL_notin_array_json by (rule cstr_prefix)
  with u show ?thesis by (simp add: rendered_def)
qed

lemma event_json_scenario_event: "event_json scenario_event = scenario_text"
  by (simp add: event_json_def scenario_event_def scenario_text_def ZONE_JSON_STRING_def
      dec_int_def dec_nat.simps)

lemma length_scenario_text: "length scenario_text = 24"
  by (simp add: scenario_text_def)

text \<open>
  C1.  For every list of events and every array of at least 3 bytes (a size that the
  \<open>int\<close> variable \<open>free_space\<close> can hold), update\_event\_json makes no store outside
  the array (the result is \<open>Some\<close> and the array keeps its length), leaves in it a
  NUL-terminated string that is a JSON array, and returns the length of that string,
  the NUL not counted.  The string consists of the events that fit, in order.
\<close>

theorem C1_encoder_safety:
  assumes "3 \<le> length b" and "length b < 2 ^ 31"
  shows "\<exists>b' n s. update_event_json b es = Some (b', n)
           \<and> length b' = length b
           \<and> cstr b' = Some s \<and> json_array s
           \<and> sint n = int (length s) \<and> unat n < length b \<and> b' ! unat n = NUL
           \<and> s = array_json (kept (length b) 1 True es)"
  using update_event_json_cstr [OF assms, of es] json_array_array_json
  by blast

theorem C1_encoder_safety_witness:
  "3 \<le> length (replicate 30 CHR ''x'') \<and> length (replicate 30 CHR ''x'') < (2::nat) ^ 31
   \<and> (\<exists>b' n s. update_event_json (replicate 30 CHR ''x'') [scenario_event, scenario_event] = Some (b', n)
           \<and> length b' = length (replicate 30 CHR ''x'')
           \<and> cstr b' = Some s \<and> json_array s
           \<and> sint n = int (length s) \<and> unat n < length (replicate 30 CHR ''x'') \<and> b' ! unat n = NUL
           \<and> s = array_json (kept (length (replicate 30 CHR ''x'')) 1 True [scenario_event, scenario_event]))"
proof -
  have h1: "3 \<le> length (replicate 30 CHR ''x'')" by simp
  have h2: "length (replicate 30 CHR ''x'') < (2::nat) ^ 31" by simp
  from C1_encoder_safety [OF h1 h2, of "[scenario_event, scenario_event]"] h1 h2
  show ?thesis by blast
qed

text \<open>
  C7.  On an array of fewer than 3 bytes update\_event\_json stores nothing, whatever
  the log holds: the array comes back as it was and the result is 0.
\<close>

theorem C7_small_buffer:
  assumes "length b < 3"
  shows "update_event_json b es = Some (b, 0)"
proof -
  have "unat (of_nat (length b) :: 32 word) = length b"
    using assms by (intro unat_of_nat32) simp
  with assms have "(of_nat (length b) :: 32 word) < 3"
    by (simp add: word_less_nat_alt)
  then show ?thesis by (simp add: update_event_json_def)
qed

theorem C7_small_buffer_witness:
  "length ''xy'' < 3 \<and> update_event_json ''xy'' [scenario_event] = Some (''xy'', 0)"
proof -
  have h: "length ''xy'' < 3" by simp
  from C7_small_buffer [OF h, of "[scenario_event]"] h show ?thesis by blast
qed

text \<open>
  C6.  The claim as stated fails: the event text has 24 characters, so an array of 25
  bytes has no room for it together with the brackets and the NUL.
\<close>

theorem C6_counterexample:
  "event_json scenario_event = scenario_text
   \<and> rendered (replicate 25 NUL) [scenario_event, scenario_event] = Some (''[]'', 2)
   \<and> rendered (replicate 25 NUL) [scenario_event, scenario_event]
       \<noteq> Some (CHR ''['' # scenario_text @ '']'', 26)"
proof -
  have k: "kept 25 1 True [scenario_event, scenario_event] = []"
    by (simp add: event_json_scenario_event length_scenario_text comma_len_def)
  have "rendered (replicate 25 NUL) [scenario_event, scenario_event] =
          Some (array_json (kept (length (replicate 25 NUL)) 1 True [scenario_event, scenario_event]),
                of_nat (length (array_json (kept (length (replicate 25 NUL)) 1 True
                   [scenario_event, scenario_event]))))"
    by (rule rendered_eq) simp_all
  then have "rendered (replicate 25 NUL) [scenario_event, scenario_event] =
          Some (array_json [], of_nat (length (array_json [])))"
    by (simp only: length_replicate k)
  then have "rendered (replicate 25 NUL) [scenario_event, scenario_event] = Some (''[]'', 2)"
    by (simp add: array_json_def)
  then show ?thesis by (simp add: event_json_scenario_event)
qed

text \<open>
  C6, amended.  Two events that each render as the 24 characters of the scenario:
  an array of 3 to 26 bytes receives the empty array, an array of 27 to 51 bytes the
  first event in full and the closing bracket (26 characters and the NUL), and only an
  array of 52 bytes or more both events.
\<close>

theorem C6_truncation:
  assumes "event_json e1 = scenario_text" and "event_json e2 = scenario_text"
    and "3 \<le> length b" and "length b < 2 ^ 31"
  shows "rendered b [e1, e2] =
           (if length b < 27 then Some (''[]'', 2)
            else if length b < 52 then Some (CHR ''['' # scenario_text @ '']'', 26)
            else Some (CHR ''['' # scenario_text @ CHR '','' # scenario_text @ '']'', 51))"
proof -
  have k: "kept (length b) 1 True [e1, e2] =
             (if length b < 27 then [] else if length b < 52 then [e1] else [e1, e2])"
    by (auto simp: assms(1,2) length_scenario_text comma_len_def Let_def)
  show ?thesis
    unfolding rendered_eq [OF assms(3,4)] k
    by (simp add: array_json_def assms(1,2) length_scenario_text)
qed

theorem C6_truncation_witness:
  "rendered (replicate 27 NUL) [scenario_event, scenario_event] =
     Some (CHR ''['' # scenario_text @ '']'', 26)"
  using C6_truncation [of scenario_event scenario_event "replicate 27 NUL"]
  by (simp add: event_json_scenario_event)

section \<open>Runs of readings\<close>

lemma observe_all_snoc: "observe_all (rs @ [r]) z = debounce r (observe_all rs z)"
  by (simp add: observe_all_def)

lemma demand_debounce_active:
  "demand (debounce False z) =
     (if 400 < sint (count (boundary_check False z)) then True_D else demand z)"
proof -
  have "demand (boundary_check False z) = demand z"
    by (simp add: boundary_check_def Let_def)
  then show ?thesis
    by (simp add: debounce_def status_update_def HYST_THRESH_ON_def word_sless_alt)
qed

lemma demand_debounce_inactive:
  "demand (debounce True z) =
     (if sint (count (boundary_check True z)) < 100 then False_D else demand z)"
proof -
  have "demand (boundary_check True z) = demand z"
    by (simp add: boundary_check_def Let_def)
  then show ?thesis
    by (simp add: debounce_def status_update_def HYST_THRESH_OFF_def word_sless_alt)
qed

lemma debounce_fields: "id_z (debounce high z) = id_z z" "pin (debounce high z) = pin z"
  by (simp_all add: debounce_def status_update_def boundary_check_def Let_def)

lemma observe_all_fields:
  "id_z (observe_all rs z) = id_z z" "pin (observe_all rs z) = pin z"
  by (induction rs rule: rev_induct) (simp_all add: observe_all_snoc debounce_fields, simp_all add: observe_all_def)

text \<open>A run of active readings: the counter climbs by 5 up to 500.\<close>

lemma active_run:
  assumes "in_hyst_range z"
  shows "sint (count (observe_all (replicate n False) z)) = min 500 (sint (count z) + 5 * int n)
       \<and> demand (observe_all (replicate n False) z) =
           (if 0 < n \<and> 400 < min 500 (sint (count z) + 5 * int n) then True_D else demand z)"
proof (induction n)
  case 0
  then show ?case using assms by (simp add: observe_all_def in_hyst_range_iff)
next
  case (Suc n)
  let ?z = "observe_all (replicate n False) z"
  have r: "in_hyst_range ?z" using assms by (rule observe_all_in_range)
  have "replicate (Suc n) False = replicate n False @ [False]"
    by (simp add: replicate_append_same)
  then have step: "observe_all (replicate (Suc n) False) z = debounce False ?z"
    by (simp only: observe_all_snoc)
  have c: "sint (count (debounce False ?z)) = min 500 (sint (count ?z) + 5)"
    using sint_count_boundary_check [OF r, of False] by (simp add: count_debounce)
  have c': "sint (count (boundary_check False ?z)) = min 500 (sint (count ?z) + 5)"
    using sint_count_boundary_check [OF r, of False] by simp
  from Suc have cn: "sint (count ?z) = min 500 (sint (count z) + 5 * int n)"
    and dn: "demand ?z = (if 0 < n \<and> 400 < min 500 (sint (count z) + 5 * int n) then True_D else demand z)"
    by simp_all
  have "sint (count (debounce False ?z)) = min 500 (sint (count z) + 5 * int (Suc n))"
    unfolding c cn by simp
  moreover have "demand (debounce False ?z) =
      (if 0 < Suc n \<and> 400 < min 500 (sint (count z) + 5 * int (Suc n)) then True_D else demand z)"
    unfolding demand_debounce_active c' cn dn by auto
  ultimately show ?case unfolding step by simp
qed

lemma word_of_sint:
  fixes w :: int32
  assumes "sint w = sint v" shows "w = v"
  using assms by (rule signed_word_eqI)

section \<open>One iteration of the zone loop\<close>

text \<open>The single event always fits the 64 bytes of \<open>buff\<close>.\<close>

lemma write_event_json_single:
  assumes "length buff = 64"
  shows "\<exists>buff'. write_event_json e buff 0 (of_nat (length buff)) False =
             Some (buff', of_nat (length (event_json e)))
           \<and> length buff' = 64 \<and> cstr buff' = Some (event_json e)"
proof -
  have n: "unat (of_nat (length buff) :: 32 word) = 64" by (simp add: assms)
  have inside: "0 + unat (of_nat (length buff) :: 32 word) \<le> length buff"
    and pos: "0 < unat (of_nat (length buff) :: 32 word)"
    by (simp_all add: assms)
  have fit: "length (event_json e) + comma_len False < unat (of_nat (length buff) :: 32 word)"
    using length_event_json(2) [of e] by (simp add: assms comma_len_def)
  from write_event_json_spec [OF inside pos, of e False] fit
  obtain buff' where w: "write_event_json e buff 0 (of_nat (length buff)) False =
        Some (buff', of_nat (length (event_json e) + comma_len False))"
    and len: "length buff' = length buff"
    and tk: "take (0 + (length (event_json e) + comma_len False) + 1) buff' =
        take 0 buff @ (if False then '','' else []) @ event_json e @ [NUL]"
    by (auto simp del: of_nat_add)
  have "take (Suc (length (event_json e))) buff' = event_json e @ [NUL]"
    using tk by (simp add: comma_len_def)
  then have "cstr buff' = Some (event_json e)"
    using NUL_notin_event_json by (rule cstr_prefix)
  with w len assms show ?thesis by (simp add: comma_len_def)
qed

lemma zone_body_same:
  assumes "demand (debounce high zone) = demand zone"
  shows "zone_body high now zone s = Some (debounce high zone, s)"
  using assms by (cases s) (simp add: zone_body_def Let_def)

lemma zone_body_change:
  assumes "demand (debounce high zone) \<noteq> demand zone" and "length buff = 64"
  shows "\<exists>buff'. length buff' = 64 \<and>
           zone_body high now zone (g, buff, ne) =
             Some (debounce high zone,
                   g\<lparr>zone_events :=
                        push_event \<lparr>info = debounce high zone, time = now,
                                    demand_e = demand (debounce high zone)\<rparr> (zone_events g),
                     published := published g @
                        [(''zone_demand'',
                          event_json \<lparr>info = debounce high zone, time = now,
                                      demand_e = demand (debounce high zone)\<rparr>)]\<rparr>,
                   buff', True)"
proof -
  let ?e = "\<lparr>info = debounce high zone, time = now, demand_e = demand (debounce high zone)\<rparr>"
  have hd: "hd (push_event ?e (zone_events g)) = ?e" by (simp add: push_event_def)
  from write_event_json_single [OF assms(2), of ?e]
  obtain buff' where "write_event_json ?e buff 0 (of_nat (length buff)) False =
        Some (buff', of_nat (length (event_json ?e)))"
    and "length buff' = 64" and "cstr buff' = Some (event_json ?e)"
    by blast
  with assms(1) hd show ?thesis
    by (simp add: zone_body_def Let_def)
qed

lemma demand_debounce_step: "demand_step (demand z) (demand (debounce high z))"
  by (cases high; cases "demand z")
     (simp_all add: demand_step_def demand_debounce_active demand_debounce_inactive)

lemma demand_debounce_known:
  "demand (debounce high z) \<noteq> demand z \<Longrightarrow> demand (debounce high z) \<noteq> Unknown"
  by (cases high) (simp_all add: demand_debounce_active demand_debounce_inactive split: if_splits)

section \<open>The log capacity\<close>

lemma push_event_take:
  assumes "length l \<le> 20"
  shows "push_event e l = take 20 (e # l)"
proof (cases "length l = 20")
  case True
  then have "butlast l = take 19 l" by (simp add: butlast_conv_take)
  with True show ?thesis by (simp add: push_event_def MAX_NUM_EVENTS_def)
next
  case False
  with assms show ?thesis by (simp add: push_event_def MAX_NUM_EVENTS_def)
qed

lemma push_all_take:
  assumes "length l \<le> 20"
  shows "push_all es l = take 20 (rev es @ l)"
  using assms
proof (induction es arbitrary: l)
  case Nil
  then show ?case by (simp add: push_all_def)
next
  case (Cons e es)
  have "push_all (e # es) l = push_all es (push_event e l)"
    by (simp add: push_all_def)
  also have "\<dots> = push_all es (take 20 (e # l))"
    using Cons.prems by (simp only: push_event_take)
  also have "\<dots> = take 20 (rev es @ take 20 (e # l))"
    by (rule Cons.IH) simp
  also have "\<dots> = take 20 (rev (e # es) @ l)"
    by (simp add: take_Cons')
  finally show ?case .
qed

text \<open>
  C5.  Pushing any sequence of events into the empty log leaves the most recent
  min(n, 20) of them, newest first, so never more than 20; 25 events numbered 0 to 24
  leave the events 24 down to 5, the newest, 24, at the front and the oldest, 5, at
  the back.
\<close>

theorem C5_log_capacity:
  "length (push_all es []) = min (length es) 20
   \<and> length (push_all es []) \<le> MAX_NUM_EVENTS
   \<and> push_all es [] = take 20 (rev es)
   \<and> push_all (map ev [0..<25]) [] = map ev (rev [5..<25])
   \<and> hd (push_all (map ev [0..<25]) []) = ev 24
   \<and> last (push_all (map ev [0..<25]) []) = ev 5"
proof -
  have a: "push_all es [] = take 20 (rev es)" for es
    using push_all_take [of "[]" es] by simp
  have t: "take 20 (rev [0..<25::nat]) = rev [5..<25]" by code_simp
  have "take 20 (rev (map ev [0..<25])) = map ev (take 20 (rev [0..<25]))"
    by (simp only: rev_map take_map)
  then have b: "push_all (map ev [0..<25]) [] = map ev (rev [5..<25])"
    unfolding a by (simp only: t)
  have c: "map ev (rev [5..<25]) = ev 24 # map ev (rev [6..<24]) @ [ev 5]"
    by (simp add: upt_rec_numeral)
  show ?thesis
    unfolding b unfolding c by (simp add: a MAX_NUM_EVENTS_def)
qed

theorem C5_log_capacity_witness:
  "push_all (map (\<lambda>i. \<lparr>info = \<lparr>id_z = of_nat i, pin = 4, count = 405, demand = True_D\<rparr>,
                         time = 1000, demand_e = True_D\<rparr>) [0..<25]) [] =
     map (\<lambda>i. \<lparr>info = \<lparr>id_z = of_nat i, pin = 4, count = 405, demand = True_D\<rparr>,
                time = 1000, demand_e = True_D\<rparr>) (rev [5..<25])"
  using C5_log_capacity [of "[]" "\<lambda>i. \<lparr>info = \<lparr>id_z = of_nat i, pin = 4, count = 405, demand = True_D\<rparr>,
                time = 1000, demand_e = True_D\<rparr>"]
  by blast

section \<open>The thresholds: scenario A and the debounce latency\<close>

lemma active_run_from:
  assumes "sint (count z) = c" "0 \<le> c" "c \<le> 500"
  shows "sint (count (observe_all (replicate n False) z)) = min 500 (c + 5 * int n)"
    and "demand (observe_all (replicate n False) z) =
           (if 0 < n \<and> 400 < min 500 (c + 5 * int n) then True_D else demand z)"
proof -
  have "in_hyst_range z" using assms by (simp add: in_hyst_range_iff)
  from active_run [OF this, of n] show
    "sint (count (observe_all (replicate n False) z)) = min 500 (c + 5 * int n)"
    "demand (observe_all (replicate n False) z) =
           (if 0 < n \<and> 400 < min 500 (c + 5 * int n) then True_D else demand z)"
    by (simp_all add: assms(1))
qed

lemma ZoneInfo_eqI:
  fixes z z' :: ZoneInfo
  assumes "id_z z = id_z z'" "pin z = pin z'" "sint (count z) = sint (count z')"
    "demand z = demand z'"
  shows "z = z'"
proof -
  have "count z = count z'" using assms(3) by (rule signed_word_eqI)
  with assms show ?thesis by simp
qed

text \<open>
  Thirty active readings from the midpoint: the demand stays Unknown throughout,
  no iteration logs anything, and the zone ends at counter 400.  One more active
  reading takes it to 405 and to demand True, and logs the event.
\<close>

lemma scenario_A_run:
  assumes "count zone = 250" and "demand zone = Unknown" and "length buff = 64"
  shows "(\<forall>k \<le> 30. demand (observe_all (replicate k False) zone) = Unknown)
       \<and> (\<forall>k < 30. zone_body False now (observe_all (replicate k False) zone) (g, buff, ne) =
             Some (observe_all (replicate (Suc k) False) zone, g, buff, ne))
       \<and> observe_all (replicate 30 False) zone = zone\<lparr>count := 400\<rparr>
       \<and> (\<exists>buff'. zone_body False now (zone\<lparr>count := 400\<rparr>) (g, buff, ne) =
             Some (zone\<lparr>count := 405, demand := True_D\<rparr>,
                   g\<lparr>zone_events :=
                        push_event \<lparr>info = zone\<lparr>count := 405, demand := True_D\<rparr>, time = now,
                                    demand_e = True_D\<rparr> (zone_events g),
                     published := published g @
                        [(''zone_demand'', ZONE_JSON_STRING (id_z zone) now 1)]\<rparr>,
                   buff', True))"
proof -
  have s: "sint (count zone) = 250" by (simp add: assms(1))
  have d: "demand (observe_all (replicate k False) zone) = Unknown" if "k \<le> 30" for k
    using active_run_from(2) [OF s, of k] that by (simp add: assms(2))
  have step: "observe_all (replicate (Suc k) False) zone =
      debounce False (observe_all (replicate k False) zone)" for k
  proof -
    have "replicate (Suc k) False = replicate k False @ [False]"
      by (simp add: replicate_append_same)
    then show ?thesis by (simp only: observe_all_snoc)
  qed
  have quiet: "zone_body False now (observe_all (replicate k False) zone) (g, buff, ne) =
      Some (observe_all (replicate (Suc k) False) zone, g, buff, ne)" if "k < 30" for k
  proof -
    have a: "demand (observe_all (replicate (Suc k) False) zone) = Unknown"
      by (rule d) (use that in simp)
    have b: "demand (observe_all (replicate k False) zone) = Unknown"
      by (rule d) (use that in simp)
    have "demand (debounce False (observe_all (replicate k False) zone)) =
        demand (observe_all (replicate k False) zone)"
      using a unfolding step by (simp only: b)
    then show ?thesis unfolding step by (rule zone_body_same)
  qed
  have z30: "observe_all (replicate 30 False) zone = zone\<lparr>count := 400\<rparr>"
    using active_run_from(1) [OF s, of 30] d [of 30]
    by (intro ZoneInfo_eqI) (simp_all add: observe_all_fields assms(2))
  let ?z = "zone\<lparr>count := 400\<rparr>"
  have r: "in_hyst_range ?z" by (simp add: in_hyst_range_iff)
  have c31: "sint (count (boundary_check False ?z)) = 405"
    using sint_count_boundary_check [OF r, of False] by simp
  have z31: "debounce False ?z = zone\<lparr>count := 405, demand := True_D\<rparr>"
    using c31 by (intro ZoneInfo_eqI)
      (simp_all add: debounce_fields demand_debounce_active count_debounce)
  have ch: "demand (debounce False ?z) \<noteq> demand ?z"
    by (simp add: z31 assms(2))
  from zone_body_change [OF ch assms(3), of now g ne]
  have "\<exists>buff'. zone_body False now ?z (g, buff, ne) =
             Some (zone\<lparr>count := 405, demand := True_D\<rparr>,
                   g\<lparr>zone_events :=
                        push_event \<lparr>info = zone\<lparr>count := 405, demand := True_D\<rparr>, time = now,
                                    demand_e = True_D\<rparr> (zone_events g),
                     published := published g @
                        [(''zone_demand'', ZONE_JSON_STRING (id_z zone) now 1)]\<rparr>,
                   buff', True)"
    unfolding z31 by (auto simp: event_json_def)
  with d quiet z30 show ?thesis by blast
qed

text \<open>
  C3.  Scenario A run on the code.  The comment on HYST\_THRESH\_ON says that the
  demand turns on when the count reaches the threshold, but the test of the loop is
  \<open>count > HYST_THRESH_ON\<close>.  A zone at counter 250 with demand Unknown that reads
  active 30 times in a row stands at counter 400 with its demand still Unknown, and
  the 30th iteration logs and publishes nothing; the demand turns True, and the event
  with \<open>on:1\<close> is logged, only with the 31st reading, at counter 405.
\<close>

theorem C3_scenario_A_on_code:
  "count (observe_all (replicate 30 False) \<lparr>id_z = 0, pin = 4, count = 250, demand = Unknown\<rparr>) = 400
   \<and> demand (observe_all (replicate 30 False) \<lparr>id_z = 0, pin = 4, count = 250, demand = Unknown\<rparr>)
       = Unknown
   \<and> zone_body False 1030
         (observe_all (replicate 29 False) \<lparr>id_z = 0, pin = 4, count = 250, demand = Unknown\<rparr>)
         (globals_init 4 5 6, replicate 64 NUL, False) =
       Some (\<lparr>id_z = 0, pin = 4, count = 400, demand = Unknown\<rparr>,
             globals_init 4 5 6, replicate 64 NUL, False)
   \<and> debounce False \<lparr>id_z = 0, pin = 4, count = 400, demand = Unknown\<rparr> =
       \<lparr>id_z = 0, pin = 4, count = 405, demand = True_D\<rparr>
   \<and> demand (observe_all (replicate 31 False) \<lparr>id_z = 0, pin = 4, count = 250, demand = Unknown\<rparr>)
       = True_D"
proof -
  let ?z = "\<lparr>id_z = 0, pin = 4, count = 250, demand = Unknown\<rparr>"
  have s: "sint (count ?z) = 250" by simp
  have h1: "count ?z = 250" and h2: "demand ?z = Unknown"
    and h3: "length (replicate 64 NUL) = 64"
    by simp_all
  note run = scenario_A_run [OF h1 h2 h3, of 1030 "globals_init 4 5 6" False]
  have z30: "observe_all (replicate 30 False) ?z = ?z\<lparr>count := 400\<rparr>"
    by (rule run [THEN conjunct2, THEN conjunct2, THEN conjunct1])
  have c30: "count (observe_all (replicate 30 False) ?z) = 400"
    by (simp only: z30) simp
  have d30: "demand (observe_all (replicate 30 False) ?z) = Unknown"
    by (simp only: z30) simp
  have q: "29 < (30::nat)" by simp
  have e: "replicate (Suc 29) False = replicate 30 False" by simp
  have lit: "?z\<lparr>count := 400\<rparr> = \<lparr>id_z = 0, pin = 4, count = 400, demand = Unknown\<rparr>"
    by simp
  have quiet: "zone_body False 1030 (observe_all (replicate 29 False) ?z)
        (globals_init 4 5 6, replicate 64 NUL, False) =
      Some (\<lparr>id_z = 0, pin = 4, count = 400, demand = Unknown\<rparr>,
            globals_init 4 5 6, replicate 64 NUL, False)"
    using run [THEN conjunct2, THEN conjunct1, rule_format, OF q]
    by (simp only: e z30 lit)
  have d31: "debounce False \<lparr>id_z = 0, pin = 4, count = 400, demand = Unknown\<rparr> =
       \<lparr>id_z = 0, pin = 4, count = 405, demand = True_D\<rparr>"
    by (simp add: debounce_def boundary_check_def status_update_def Let_def HYST_MAX_def
        HYST_THRESH_ON_def)
  have on: "demand (observe_all (replicate 31 False) ?z) = True_D"
    using active_run_from(2) [OF s, of 31] by simp
  show ?thesis
    by (intro conjI c30 d30 quiet d31 on)
qed

text \<open>
  Active readings from counter HYST\_MIN = 0: after \<open>n\<close> of them the counter is
  min(500, 5n), and a demand that was not True is True exactly from reading 81 on.
\<close>

lemma active_run_from_min:
  assumes "count zone = HYST_MIN" and "demand zone \<noteq> True_D"
  shows "(demand (observe_all (replicate n False) zone) = True_D \<longleftrightarrow> 81 \<le> n)
       \<and> sint (count (observe_all (replicate n False) zone)) = min 500 (5 * int n)"
proof -
  have s: "sint (count zone) = 0" by (simp add: assms(1) HYST_MIN_def)
  show ?thesis
    using active_run_from [OF s, of n] assms(2) by auto
qed

text \<open>
  C4.  The debounce latency on the code.  With the test \<open>count > HYST_THRESH_ON\<close>
  in place of the \<open>reaches\<close> of the comment, a zone at counter HYST\_MIN = 0 whose
  demand is False stands after 80 active readings at counter 400 with its demand
  still False; the demand turns True with reading 81, at counter 405.
\<close>

theorem C4_latency_on_code:
  "count (observe_all (replicate 80 False) \<lparr>id_z = 0, pin = 4, count = 0, demand = False_D\<rparr>) = 400
   \<and> demand (observe_all (replicate 80 False) \<lparr>id_z = 0, pin = 4, count = 0, demand = False_D\<rparr>)
       = False_D
   \<and> count (observe_all (replicate 81 False) \<lparr>id_z = 0, pin = 4, count = 0, demand = False_D\<rparr>) = 405
   \<and> demand (observe_all (replicate 81 False) \<lparr>id_z = 0, pin = 4, count = 0, demand = False_D\<rparr>)
       = True_D"
proof -
  let ?z = "\<lparr>id_z = 0, pin = 4, count = 0, demand = False_D\<rparr>"
  have s: "sint (count ?z) = 0" by simp
  have "sint (count (observe_all (replicate 80 False) ?z)) = sint (400 :: int32)"
    using active_run_from(1) [OF s, of 80] by simp
  then have c80: "count (observe_all (replicate 80 False) ?z) = 400"
    by (rule signed_word_eqI)
  have "sint (count (observe_all (replicate 81 False) ?z)) = sint (405 :: int32)"
    using active_run_from(1) [OF s, of 81] by simp
  then have c81: "count (observe_all (replicate 81 False) ?z) = 405"
    by (rule signed_word_eqI)
  have d80: "demand (observe_all (replicate 80 False) ?z) = False_D"
    using active_run_from(2) [OF s, of 80] by simp
  have d81: "demand (observe_all (replicate 81 False) ?z) = True_D"
    using active_run_from(2) [OF s, of 81] by simp
  show ?thesis
    by (intro conjI c80 d80 c81 d81)
qed

section \<open>The loop over the zones\<close>

lemma length_buff_init: "length (buff_init inp) = 64"
  by (simp add: buff_init_def)

lemma push_all_Cons: "push_all (e # es) l = push_all es (push_event e l)"
  by (simp add: push_all_def)

lemma push_all_Nil: "push_all [] l = l"
  by (simp add: push_all_def)

text \<open>The loop over the zones never fails and does what the two lists say.\<close>

lemma zones_loop_spec:
  assumes "length buff = 64"
  shows "\<exists>buff'. length buff' = 64 \<and>
           zones_loop inp i zs (g, buff, ne) =
             Some (debounce_zones inp i zs,
                   g\<lparr>zone_events := push_all (poll_events inp i zs) (zone_events g),
                     published := published g @
                        map (\<lambda>e. (''zone_demand'', event_json e)) (poll_events inp i zs)\<rparr>,
                   buff', ne \<or> poll_events inp i zs \<noteq> [])"
  using assms
proof (induction zs arbitrary: i g buff ne)
  case Nil
  then show ?case by (simp add: push_all_Nil)
next
  case (Cons z zs)
  let ?z' = "debounce (raw_high inp i) z"
  show ?case
  proof (cases "demand ?z' = demand z")
    case True
    then have zb: "zone_body (raw_high inp i) (event_now inp i) z (g, buff, ne) =
        Some (?z', g, buff, ne)"
      by (rule zone_body_same)
    from Cons.IH [OF Cons.prems, of "Suc i" g ne]
    obtain buff' where "length buff' = 64" and
      "zones_loop inp (Suc i) zs (g, buff, ne) =
             Some (debounce_zones inp (Suc i) zs,
                   g\<lparr>zone_events := push_all (poll_events inp (Suc i) zs) (zone_events g),
                     published := published g @
                        map (\<lambda>e. (''zone_demand'', event_json e)) (poll_events inp (Suc i) zs)\<rparr>,
                   buff', ne \<or> poll_events inp (Suc i) zs \<noteq> [])"
      by blast
    with True zb show ?thesis by (simp add: Let_def)
  next
    case False
    let ?e = "\<lparr>info = ?z', time = event_now inp i, demand_e = demand ?z'\<rparr>"
    let ?g1 = "g\<lparr>zone_events := push_event ?e (zone_events g),
                  published := published g @ [(''zone_demand'', event_json ?e)]\<rparr>"
    from zone_body_change [OF False Cons.prems, of "event_now inp i" g ne]
    obtain buff1 where l1: "length buff1 = 64"
      and zb: "zone_body (raw_high inp i) (event_now inp i) z (g, buff, ne) =
          Some (?z', ?g1, buff1, True)"
      by blast
    from Cons.IH [OF l1, of "Suc i" ?g1 True]
    obtain buff' where "length buff' = 64" and
      "zones_loop inp (Suc i) zs (?g1, buff1, True) =
             Some (debounce_zones inp (Suc i) zs,
                   ?g1\<lparr>zone_events := push_all (poll_events inp (Suc i) zs) (zone_events ?g1),
                     published := published ?g1 @
                        map (\<lambda>e. (''zone_demand'', event_json e)) (poll_events inp (Suc i) zs)\<rparr>,
                   buff', True \<or> poll_events inp (Suc i) zs \<noteq> [])"
      by blast
    with False zb show ?thesis
      by (simp add: Let_def push_all_Cons)
  qed
qed

lemma poll_events_Nil_iff:
  "poll_events inp i zs = [] \<longleftrightarrow> map demand (debounce_zones inp i zs) = map demand zs"
  by (induction zs arbitrary: i) (auto simp: Let_def)

lemma poll_events_known: "e \<in> set (poll_events inp i zs) \<Longrightarrow> demand_e e \<noteq> Unknown"
proof (induction zs arbitrary: i)
  case Nil
  then show ?case by simp
next
  case (Cons z zs)
  then show ?case
    using demand_debounce_known [of "raw_high inp i" z]
    by (auto simp: Let_def split: if_splits)
qed

lemma debounce_zones_steps:
  "list_all2 (\<lambda>z z'. demand_step (demand z) (demand z')) zs (debounce_zones inp i zs)"
  by (induction zs arbitrary: i) (simp_all add: demand_debounce_step)

lemma debounce_zones_in_range:
  "(\<And>z. z \<in> set zs \<Longrightarrow> in_hyst_range z) \<Longrightarrow> z' \<in> set (debounce_zones inp i zs)
     \<Longrightarrow> in_hyst_range z'"
  by (induction zs arbitrary: i) (auto simp: debounce_in_range)

lemma set_push_event: "set (push_event e l) \<subseteq> insert e (set l)"
  by (auto simp: push_event_def dest: in_set_butlastD)

lemma set_push_all: "set (push_all es l) \<subseteq> set es \<union> set l"
proof (induction es arbitrary: l)
  case Nil
  then show ?case by (simp add: push_all_Nil)
next
  case (Cons e es)
  from Cons [of "push_event e l"] set_push_event [of e l] show ?case
    by (auto simp: push_all_Cons)
qed

lemma length_push_all: "length l \<le> 20 \<Longrightarrow> length (push_all es l) \<le> 20"
  by (simp add: push_all_take)

section \<open>A whole poll, and runs of polls\<close>

lemma read_all_zones_quiet:
  assumes "poll_events inp 0 (zone_list g) = []"
  shows "read_all_zones inp g =
           Some (g\<lparr>zone_list := debounce_zones inp 0 (zone_list g),
                   last_poll := poll_now inp,
                   polls := (if polls g + 1 <s 0 then 0 else polls g + 1)\<rparr>)"
proof -
  have l: "length (buff_init inp) = 64" by (rule length_buff_init)
  from zones_loop_spec [OF l, where inp = inp and i = 0 and zs = "zone_list g" and g = g
      and ne = False]
  obtain buff' where
    "zones_loop inp 0 (zone_list g) (g, buff_init inp, False) =
       Some (debounce_zones inp 0 (zone_list g), g, buff', False)"
    by (auto simp: assms push_all_Nil)
  then show ?thesis
    by (simp add: read_all_zones_def Let_def)
qed

lemma read_all_zones_event:
  assumes "poll_events inp 0 (zone_list g) \<noteq> []"
    and "3 \<le> length (zone_events_json g)" and "length (zone_events_json g) < 2 ^ 31"
  shows "\<exists>json. read_all_zones inp g =
             Some ((after_poll inp g)\<lparr>zone_events_json := json, last_event := poll_now inp\<rparr>)
           \<and> length json = length (zone_events_json g)
           \<and> cstr json = Some (array_json (kept (length (zone_events_json g)) 1 True
                 (push_all (poll_events inp 0 (zone_list g)) (zone_events g))))"
proof -
  let ?pe = "poll_events inp 0 (zone_list g)"
  let ?g1 = "g\<lparr>zone_events := push_all ?pe (zone_events g),
       published := published g @ map (\<lambda>e. (''zone_demand'', event_json e)) ?pe\<rparr>"
  have l: "length (buff_init inp) = 64" by (rule length_buff_init)
  from zones_loop_spec [OF l, where inp = inp and i = 0 and zs = "zone_list g" and g = g
      and ne = False]
  obtain buff' where zl:
    "zones_loop inp 0 (zone_list g) (g, buff_init inp, False) =
       Some (debounce_zones inp 0 (zone_list g), ?g1, buff', True)"
    by (auto simp: assms(1))
  from update_event_json_cstr [OF assms(2,3), of "push_all ?pe (zone_events g)"]
  obtain json n where u: "update_event_json (zone_events_json g) (push_all ?pe (zone_events g)) =
        Some (json, n)"
    and len: "length json = length (zone_events_json g)"
    and c: "cstr json = Some (array_json (kept (length (zone_events_json g)) 1 True
                 (push_all ?pe (zone_events g))))"
    by blast
  have "read_all_zones inp g =
      Some ((after_poll inp g)\<lparr>zone_events_json := json, last_event := poll_now inp\<rparr>)"
    by (simp add: read_all_zones_def zl Let_def u after_poll_def)
  with len c show ?thesis by blast
qed

lemma state_ok_init: "state_ok (globals_init D4 D5 D6)"
  by (simp add: state_ok_def globals_init_def zone_list_init_def in_hyst_range_iff HYST_MAX_def)

lemma read_all_zones_total:
  assumes "state_ok g"
  shows "\<exists>g'. read_all_zones inp g = Some g' \<and> state_ok g'
           \<and> zone_list g' = debounce_zones inp 0 (zone_list g)
           \<and> zone_events g' = push_all (poll_events inp 0 (zone_list g)) (zone_events g)
           \<and> published g' = published g @
                map (\<lambda>e. (''zone_demand'', event_json e)) (poll_events inp 0 (zone_list g))"
proof -
  let ?pe = "poll_events inp 0 (zone_list g)"
  have zr: "list_all in_hyst_range (debounce_zones inp 0 (zone_list g))"
    using assms debounce_zones_in_range [of "zone_list g" _ inp 0]
    by (auto simp: state_ok_def list_all_iff)
  have ek: "list_all (\<lambda>e. demand_e e \<noteq> Unknown) (push_all ?pe (zone_events g))"
    using assms set_push_all [of ?pe "zone_events g"] poll_events_known [of _ inp 0 "zone_list g"]
    by (auto simp: state_ok_def list_all_iff)
  have el: "length (push_all ?pe (zone_events g)) \<le> 20"
    using assms by (intro length_push_all) (simp add: state_ok_def)
  show ?thesis
  proof (cases "?pe = []")
    case True
    from read_all_zones_quiet [OF True] True assms zr show ?thesis
      by (simp add: state_ok_def push_all_Nil)
  next
    case False
    have "3 \<le> length (zone_events_json g)" "length (zone_events_json g) < 2 ^ 31"
      using assms by (simp_all add: state_ok_def)
    from read_all_zones_event [OF False this]
    obtain json where "read_all_zones inp g =
             Some ((after_poll inp g)\<lparr>zone_events_json := json, last_event := poll_now inp\<rparr>)"
      and "length json = length (zone_events_json g)"
      by blast
    with assms zr ek el show ?thesis
      by (simp add: state_ok_def after_poll_def)
  qed
qed

lemma run_polls_total:
  assumes "state_ok g"
  shows "\<exists>g'. run_polls inps g = Some g' \<and> state_ok g'"
  using assms
proof (induction inps arbitrary: g)
  case Nil
  then show ?case by simp
next
  case (Cons inp inps)
  from read_all_zones_total [OF Cons.prems, of inp]
  obtain g1 where "read_all_zones inp g = Some g1" "state_ok g1" by blast
  with Cons.IH [of g1] show ?case by simp
qed

section \<open>Transitions, notification and the quiet poll\<close>


lemma length_debounce_zones: "length (debounce_zones inp i zs) = length zs"
  by (induction zs arbitrary: i) simp_all

lemma upt_0_Suc: "[0..<Suc n] = 0 # map Suc [0..<n]"
  by (simp add: upt_conv_Cons map_Suc_upt del: upt_Suc)

text \<open>The logged events, read off the zones before and after the loop.\<close>

lemma poll_events_by_index:
  "poll_events inp i zs =
     map (\<lambda>j. \<lparr>info = debounce_zones inp i zs ! j, time = event_now inp (i + j),
                demand_e = demand (debounce_zones inp i zs ! j)\<rparr>)
       (filter (\<lambda>j. demand (debounce_zones inp i zs ! j) \<noteq> demand (zs ! j)) [0..<length zs])"
proof (induction zs arbitrary: i)
  case Nil
  then show ?case by simp
next
  case (Cons z zs)
  let ?z' = "debounce (raw_high inp i) z"
  let ?dz = "debounce_zones inp (Suc i) zs"
  have tl: "map (\<lambda>j. \<lparr>info = (?z' # ?dz) ! j, time = event_now inp (i + j),
                demand_e = demand ((?z' # ?dz) ! j)\<rparr>)
       (filter (\<lambda>j. demand ((?z' # ?dz) ! j) \<noteq> demand ((z # zs) ! j)) (map Suc [0..<length zs]))
     = poll_events inp (Suc i) zs"
    unfolding Cons.IH [of "Suc i"] by (simp add: filter_map comp_def)
  show ?case
    unfolding length_Cons upt_0_Suc debounce_zones.simps poll_events.simps Let_def
      filter.simps list.map tl [symmetric]
    by auto
qed


lemma demand_step_cases:
  "demand_step d d' \<Longrightarrow>
     d' = d \<or> (d = Unknown \<and> d' = True_D) \<or> (d = Unknown \<and> d' = False_D)
       \<or> (d = True_D \<and> d' = False_D) \<or> (d = False_D \<and> d' = True_D)"
  by (simp add: demand_step_def)

text \<open>
  C8.  One iteration of the zone loop either leaves the demand of its zone as it was
  or takes one of the steps Unknown to True, Unknown to False, True to False, False to
  True.  When the demand is unchanged the log is unchanged; when it changed, the log
  afterwards is the new event, which carries the time read and the new demand, in
  front of the old log, less its last entry if the old log held 20.  From the start
  of the program every sequence of polls runs through; the log then holds at most 20
  events, each with demand True or False; and a further poll moves every zone by one
  of those steps and leaves as log the first 20 of: the events of exactly the zones
  whose demand changed, the last zone first, followed by the old log.
\<close>

theorem C8_transitions:
  assumes "length buff = 64"
  shows "(\<exists>g' buff' ne'.
            zone_body high now zone (g0, buff, ne) = Some (debounce high zone, g', buff', ne')
            \<and> (demand (debounce high zone) = demand zone
                 \<or> (demand zone = Unknown \<and> demand (debounce high zone) = True_D)
                 \<or> (demand zone = Unknown \<and> demand (debounce high zone) = False_D)
                 \<or> (demand zone = True_D \<and> demand (debounce high zone) = False_D)
                 \<or> (demand zone = False_D \<and> demand (debounce high zone) = True_D))
            \<and> zone_events g' =
                (if demand (debounce high zone) = demand zone then zone_events g0
                 else \<lparr>info = debounce high zone, time = now,
                        demand_e = demand (debounce high zone)\<rparr>
                      # (if length (zone_events g0) = 20 then butlast (zone_events g0)
                         else zone_events g0))
            \<and> ne' = (ne \<or> demand (debounce high zone) \<noteq> demand zone))
       \<and> (\<exists>g. run_polls inps (globals_init D4 D5 D6) = Some g
            \<and> length (zone_events g) \<le> 20
            \<and> (\<forall>e \<in> set (zone_events g). demand_e e = True_D \<or> demand_e e = False_D)
            \<and> (\<forall>inp. \<exists>g'. read_all_zones inp g = Some g'
                  \<and> length (zone_list g') = length (zone_list g)
                  \<and> (\<forall>i < length (zone_list g).
                        demand (zone_list g' ! i) = demand (zone_list g ! i)
                        \<or> (demand (zone_list g ! i) = Unknown \<and> demand (zone_list g' ! i) = True_D)
                        \<or> (demand (zone_list g ! i) = Unknown \<and> demand (zone_list g' ! i) = False_D)
                        \<or> (demand (zone_list g ! i) = True_D \<and> demand (zone_list g' ! i) = False_D)
                        \<or> (demand (zone_list g ! i) = False_D \<and> demand (zone_list g' ! i) = True_D))
                  \<and> zone_events g' =
                       take 20
                         (rev (map (\<lambda>i. \<lparr>info = zone_list g' ! i, time = event_now inp i,
                                          demand_e = demand (zone_list g' ! i)\<rparr>)
                                 (filter (\<lambda>i. demand (zone_list g' ! i) \<noteq> demand (zone_list g ! i))
                                    [0..<length (zone_list g)]))
                          @ zone_events g)))"
proof -
  let ?z' = "debounce high zone"
  let ?e = "\<lparr>info = ?z', time = now, demand_e = demand ?z'\<rparr>"
  have step: "demand ?z' = demand zone
                 \<or> (demand zone = Unknown \<and> demand ?z' = True_D)
                 \<or> (demand zone = Unknown \<and> demand ?z' = False_D)
                 \<or> (demand zone = True_D \<and> demand ?z' = False_D)
                 \<or> (demand zone = False_D \<and> demand ?z' = True_D)"
    using demand_debounce_step [of zone high] by (rule demand_step_cases)
  have one: "\<exists>g' buff' ne'.
            zone_body high now zone (g0, buff, ne) = Some (?z', g', buff', ne')
            \<and> (demand ?z' = demand zone
                 \<or> (demand zone = Unknown \<and> demand ?z' = True_D)
                 \<or> (demand zone = Unknown \<and> demand ?z' = False_D)
                 \<or> (demand zone = True_D \<and> demand ?z' = False_D)
                 \<or> (demand zone = False_D \<and> demand ?z' = True_D))
            \<and> zone_events g' =
                (if demand ?z' = demand zone then zone_events g0
                 else ?e # (if length (zone_events g0) = 20 then butlast (zone_events g0)
                            else zone_events g0))
            \<and> ne' = (ne \<or> demand ?z' \<noteq> demand zone)"
  proof (cases "demand ?z' = demand zone")
    case True
    have "zone_body high now zone (g0, buff, ne) = Some (?z', g0, buff, ne)"
      using True by (rule zone_body_same)
    with step True show ?thesis
      by (intro exI [of _ g0] exI [of _ buff] exI [of _ ne]) simp
  next
    case False
    from zone_body_change [OF False assms, of now g0 ne]
    obtain buff' where zb: "zone_body high now zone (g0, buff, ne) =
             Some (?z',
                   g0\<lparr>zone_events := push_event ?e (zone_events g0),
                     published := published g0 @ [(''zone_demand'', event_json ?e)]\<rparr>,
                   buff', True)"
      by blast
    let ?g' = "g0\<lparr>zone_events := push_event ?e (zone_events g0),
                     published := published g0 @ [(''zone_demand'', event_json ?e)]\<rparr>"
    from zb step False show ?thesis
      by (intro exI [of _ ?g'] exI [of _ buff'] exI [of _ True])
        (simp add: push_event_def MAX_NUM_EVENTS_def)
  qed
  from run_polls_total [OF state_ok_init, of inps D4 D5 D6]
  obtain g where run: "run_polls inps (globals_init D4 D5 D6) = Some g" and ok: "state_ok g"
    by blast
  have len: "length (zone_events g) \<le> 20" using ok by (simp add: state_ok_def)
  have ev: "\<forall>e \<in> set (zone_events g). demand_e e = True_D \<or> demand_e e = False_D"
  proof
    fix e assume "e \<in> set (zone_events g)"
    with ok have "demand_e e \<noteq> Unknown" by (simp add: state_ok_def list_all_iff)
    then show "demand_e e = True_D \<or> demand_e e = False_D" by (cases "demand_e e") simp_all
  qed
  have next_poll: "\<exists>g'. read_all_zones inp g = Some g'
                  \<and> length (zone_list g') = length (zone_list g)
                  \<and> (\<forall>i < length (zone_list g).
                        demand (zone_list g' ! i) = demand (zone_list g ! i)
                        \<or> (demand (zone_list g ! i) = Unknown \<and> demand (zone_list g' ! i) = True_D)
                        \<or> (demand (zone_list g ! i) = Unknown \<and> demand (zone_list g' ! i) = False_D)
                        \<or> (demand (zone_list g ! i) = True_D \<and> demand (zone_list g' ! i) = False_D)
                        \<or> (demand (zone_list g ! i) = False_D \<and> demand (zone_list g' ! i) = True_D))
                  \<and> zone_events g' =
                       take 20
                         (rev (map (\<lambda>i. \<lparr>info = zone_list g' ! i, time = event_now inp i,
                                          demand_e = demand (zone_list g' ! i)\<rparr>)
                                 (filter (\<lambda>i. demand (zone_list g' ! i) \<noteq> demand (zone_list g ! i))
                                    [0..<length (zone_list g)]))
                          @ zone_events g)" for inp
  proof -
    from read_all_zones_total [OF ok, of inp]
    obtain g' where r: "read_all_zones inp g = Some g'"
      and z: "zone_list g' = debounce_zones inp 0 (zone_list g)"
      and e: "zone_events g' = push_all (poll_events inp 0 (zone_list g)) (zone_events g)"
      by blast
    have l: "length (zone_list g') = length (zone_list g)"
      by (simp add: z length_debounce_zones)
    have st: "\<forall>i < length (zone_list g).
                        demand (zone_list g' ! i) = demand (zone_list g ! i)
                        \<or> (demand (zone_list g ! i) = Unknown \<and> demand (zone_list g' ! i) = True_D)
                        \<or> (demand (zone_list g ! i) = Unknown \<and> demand (zone_list g' ! i) = False_D)
                        \<or> (demand (zone_list g ! i) = True_D \<and> demand (zone_list g' ! i) = False_D)
                        \<or> (demand (zone_list g ! i) = False_D \<and> demand (zone_list g' ! i) = True_D)"
    proof (intro allI impI)
      fix i assume "i < length (zone_list g)"
      with debounce_zones_steps [of "zone_list g" inp 0]
      have "demand_step (demand (zone_list g ! i)) (demand (debounce_zones inp 0 (zone_list g) ! i))"
        by (simp add: list_all2_conv_all_nth)
      then show "demand (zone_list g' ! i) = demand (zone_list g ! i)
                        \<or> (demand (zone_list g ! i) = Unknown \<and> demand (zone_list g' ! i) = True_D)
                        \<or> (demand (zone_list g ! i) = Unknown \<and> demand (zone_list g' ! i) = False_D)
                        \<or> (demand (zone_list g ! i) = True_D \<and> demand (zone_list g' ! i) = False_D)
                        \<or> (demand (zone_list g ! i) = False_D \<and> demand (zone_list g' ! i) = True_D)"
        unfolding z by (rule demand_step_cases)
    qed
    have pe: "poll_events inp 0 (zone_list g) =
        map (\<lambda>i. \<lparr>info = zone_list g' ! i, time = event_now inp i,
                   demand_e = demand (zone_list g' ! i)\<rparr>)
          (filter (\<lambda>i. demand (zone_list g' ! i) \<noteq> demand (zone_list g ! i))
             [0..<length (zone_list g)])"
      unfolding z by (subst poll_events_by_index) simp
    have "zone_events g' = take 20 (rev (poll_events inp 0 (zone_list g)) @ zone_events g)"
      unfolding e using len by (rule push_all_take)
    then have lg: "zone_events g' =
                       take 20
                         (rev (map (\<lambda>i. \<lparr>info = zone_list g' ! i, time = event_now inp i,
                                          demand_e = demand (zone_list g' ! i)\<rparr>)
                                 (filter (\<lambda>i. demand (zone_list g' ! i) \<noteq> demand (zone_list g ! i))
                                    [0..<length (zone_list g)]))
                          @ zone_events g)"
      by (simp only: pe)
    show ?thesis
      by (intro exI [of _ g'] conjI r l st lg)
  qed
  have two: "\<exists>g. run_polls inps (globals_init D4 D5 D6) = Some g
            \<and> length (zone_events g) \<le> 20
            \<and> (\<forall>e \<in> set (zone_events g). demand_e e = True_D \<or> demand_e e = False_D)
            \<and> (\<forall>inp. \<exists>g'. read_all_zones inp g = Some g'
                  \<and> length (zone_list g') = length (zone_list g)
                  \<and> (\<forall>i < length (zone_list g).
                        demand (zone_list g' ! i) = demand (zone_list g ! i)
                        \<or> (demand (zone_list g ! i) = Unknown \<and> demand (zone_list g' ! i) = True_D)
                        \<or> (demand (zone_list g ! i) = Unknown \<and> demand (zone_list g' ! i) = False_D)
                        \<or> (demand (zone_list g ! i) = True_D \<and> demand (zone_list g' ! i) = False_D)
                        \<or> (demand (zone_list g ! i) = False_D \<and> demand (zone_list g' ! i) = True_D))
                  \<and> zone_events g' =
                       take 20
                         (rev (map (\<lambda>i. \<lparr>info = zone_list g' ! i, time = event_now inp i,
                                          demand_e = demand (zone_list g' ! i)\<rparr>)
                                 (filter (\<lambda>i. demand (zone_list g' ! i) \<noteq> demand (zone_list g ! i))
                                    [0..<length (zone_list g)]))
                          @ zone_events g))"
    by (intro exI [of _ g] conjI allI run len ev next_poll)
  from one two show ?thesis by (rule conjI)
qed

theorem C8_transitions_witness:
  "length (replicate 64 NUL) = 64
   \<and> (\<exists>g' buff' ne'.
         zone_body False 1000 \<lparr>id_z = 1, pin = 5, count = 400, demand = Unknown\<rparr>
           (globals_init 4 5 6, replicate 64 NUL, False) =
           Some (\<lparr>id_z = 1, pin = 5, count = 405, demand = True_D\<rparr>, g', buff', ne')
         \<and> zone_events g' =
             [\<lparr>info = \<lparr>id_z = 1, pin = 5, count = 405, demand = True_D\<rparr>, time = 1000,
               demand_e = True_D\<rparr>]
         \<and> ne' = True)"
proof -
  let ?z = "\<lparr>id_z = 1, pin = 5, count = 400, demand = Unknown\<rparr>"
  have h: "length (replicate 64 NUL) = 64" by simp
  have d: "debounce False ?z = \<lparr>id_z = 1, pin = 5, count = 405, demand = True_D\<rparr>"
    by (simp add: debounce_def boundary_check_def status_update_def Let_def HYST_MAX_def
        HYST_THRESH_ON_def)
  from C8_transitions [OF h, of False 1000 ?z "globals_init 4 5 6" False "[]" 4 5 6,
      THEN conjunct1]
  obtain g' buff' ne' where
    "zone_body False 1000 ?z (globals_init 4 5 6, replicate 64 NUL, False) =
       Some (debounce False ?z, g', buff', ne')"
    and "zone_events g' =
                (if demand (debounce False ?z) = demand ?z then zone_events (globals_init 4 5 6)
                 else \<lparr>info = debounce False ?z, time = 1000,
                        demand_e = demand (debounce False ?z)\<rparr>
                      # (if length (zone_events (globals_init 4 5 6)) = 20
                         then butlast (zone_events (globals_init 4 5 6))
                         else zone_events (globals_init 4 5 6)))"
    and "ne' = (False \<or> demand (debounce False ?z) \<noteq> demand ?z)"
    by blast
  then have "zone_body False 1000 ?z (globals_init 4 5 6, replicate 64 NUL, False) =
           Some (\<lparr>id_z = 1, pin = 5, count = 405, demand = True_D\<rparr>, g', buff', ne')
         \<and> zone_events g' =
             [\<lparr>info = \<lparr>id_z = 1, pin = 5, count = 405, demand = True_D\<rparr>, time = 1000,
               demand_e = True_D\<rparr>]
         \<and> ne' = True"
    by (simp add: d globals_init_def)
  with h show ?thesis by blast
qed





text \<open>
  C10.  A call of read\_all\_zones in which no zone changes its demand returns with
  the log, the rendered array, \<open>last_event\<close> and the list of published events as they
  were; \<open>last_poll\<close> is the time read after the loop, and \<open>polls\<close> is one more than
  before, or 0 when that sum is negative, and so never negative.
\<close>

theorem C10_quiet_poll_frame:
  assumes "map demand (debounce_zones inp 0 (zone_list g)) = map demand (zone_list g)"
  shows "\<exists>g'. read_all_zones inp g = Some g'
           \<and> zone_list g' = debounce_zones inp 0 (zone_list g)
           \<and> zone_events g' = zone_events g
           \<and> zone_events_json g' = zone_events_json g
           \<and> last_event g' = last_event g
           \<and> published g' = published g
           \<and> last_poll g' = poll_now inp
           \<and> polls g' = (if polls g + 1 <s 0 then 0 else polls g + 1)
           \<and> 0 \<le> sint (polls g')"
proof -
  have "poll_events inp 0 (zone_list g) = []"
    using assms by (simp add: poll_events_Nil_iff)
  from read_all_zones_quiet [OF this] show ?thesis
    by (simp add: word_sless_alt)
qed

theorem C10_quiet_poll_frame_witness:
  "\<exists>g'. read_all_zones \<lparr>raw_high = (\<lambda>i. False), event_now = (\<lambda>i. 1000), poll_now = 1001,
                           stack = []\<rparr> ((globals_init 4 5 6)\<lparr>polls := 0x7FFFFFFF\<rparr>) = Some g'
      \<and> zone_events g' = []
      \<and> zone_events_json g' = ''[]'' @ replicate 618 NUL
      \<and> last_event g' = 0 \<and> last_poll g' = 1001 \<and> polls g' = 0"
proof -
  let ?inp = "\<lparr>raw_high = (\<lambda>i. False), event_now = (\<lambda>i. 1000), poll_now = 1001, stack = []\<rparr>"
  let ?g = "(globals_init 4 5 6)\<lparr>polls := 0x7FFFFFFF\<rparr>"
  have h: "map demand (debounce_zones ?inp 0 (zone_list ?g)) = map demand (zone_list ?g)"
    by (simp add: globals_init_def zone_list_init_def debounce_def boundary_check_def
        status_update_def Let_def HYST_MAX_def HYST_THRESH_ON_def)
  have neg: "(0x7FFFFFFF + 1 :: 32 word) <s 0" by code_simp
  from C10_quiet_poll_frame [OF h]
  obtain g' where "read_all_zones ?inp ?g = Some g'" "zone_events g' = zone_events ?g"
    "zone_events_json g' = zone_events_json ?g" "last_event g' = last_event ?g"
    "last_poll g' = poll_now ?inp" "polls g' = (if polls ?g + 1 <s 0 then 0 else polls ?g + 1)"
    by blast
  with neg show ?thesis
    by (intro exI [of _ g']) (simp add: globals_init_def)
qed

section \<open>The counter range over runs of polls\<close>

text \<open>
  C2.  A zone whose counter lies in [HYST\_MIN, HYST\_MAX] = [0, 500], as the counter
  of every zone of \<open>zone_list\<close> does at the start, keeps it there over every sequence
  of raw readings; and in one observation the counter is brought back into the range
  (boundary\_check) before the threshold test (status\_update) reads it, that test
  leaving the counter as it is.  So after every run of polls from the start of the
  program the counter of every zone lies in the range.
\<close>

theorem C2_counter_clamped:
  assumes "in_hyst_range zone"
  shows "HYST_MIN \<le>s count (observe_all rs zone) \<and> count (observe_all rs zone) \<le>s HYST_MAX
       \<and> HYST_MIN \<le>s count (boundary_check high zone)
       \<and> count (boundary_check high zone) \<le>s HYST_MAX
       \<and> debounce high zone = status_update high (boundary_check high zone)
       \<and> count (debounce high zone) = count (boundary_check high zone)
       \<and> sint HYST_MIN = 0 \<and> sint HYST_MAX = 500
       \<and> (\<exists>g. run_polls inps (globals_init D4 D5 D6) = Some g
              \<and> list_all in_hyst_range (zone_list g))"
proof -
  from run_polls_total [OF state_ok_init, of inps D4 D5 D6]
  have "\<exists>g. run_polls inps (globals_init D4 D5 D6) = Some g
              \<and> list_all in_hyst_range (zone_list g)"
    by (auto simp: state_ok_def)
  with observe_all_in_range [OF assms, of rs] boundary_check_in_range [OF assms, of high]
  show ?thesis
    by (simp add: in_hyst_range_def debounce_def HYST_MIN_def HYST_MAX_def)
qed

theorem C2_counter_clamped_witness:
  "in_hyst_range \<lparr>id_z = 0, pin = 4, count = 250, demand = Unknown\<rparr>
   \<and> HYST_MIN \<le>s count (observe_all [True, False, False] \<lparr>id_z = 0, pin = 4, count = 250, demand = Unknown\<rparr>)
   \<and> count (observe_all [True, False, False] \<lparr>id_z = 0, pin = 4, count = 250, demand = Unknown\<rparr>) \<le>s HYST_MAX
   \<and> HYST_MIN \<le>s count (boundary_check True \<lparr>id_z = 0, pin = 4, count = 250, demand = Unknown\<rparr>)
   \<and> count (boundary_check True \<lparr>id_z = 0, pin = 4, count = 250, demand = Unknown\<rparr>) \<le>s HYST_MAX"
proof -
  have h: "in_hyst_range \<lparr>id_z = 0, pin = 4, count = 250, demand = Unknown\<rparr>"
    by (simp add: in_hyst_range_iff)
  from C2_counter_clamped [OF h, of "[True, False, False]" True "[]" 4 5 6] h show ?thesis
    by blast
qed

end
